theory Spec2Isabelle
  imports Complex_Main
begin

section \<open>Python values\<close>

text \<open>
  Python floats (timestamps, loads, utilizations) are modelled as \<open>real\<close>: comparisons are
  the program's comparisons, arithmetic is exact. Exceptions are values of \<open>py_error\<close>, and a
  function that can raise returns \<open>py_error + 'a\<close>.
\<close>

datatype py_error = ValueError | ZeroDivisionError | IndexError | KeyError

text \<open>
  The builtin \<open>min(iterable, key=f)\<close>: the running best is replaced only by an element
  whose key is strictly smaller, so the first minimal element in iteration order is returned;
  an empty iterable raises \<open>ValueError\<close>.
\<close>

fun min_by :: "('a \<Rightarrow> 'b::linorder) \<Rightarrow> 'a \<Rightarrow> 'a list \<Rightarrow> 'a" where
  "min_by f best [] = best"
| "min_by f best (x # xs) = min_by f (if f x < f best then x else best) xs"

definition py_min_key :: "('a \<Rightarrow> 'b::linorder) \<Rightarrow> 'a list \<Rightarrow> py_error + 'a" where
  "py_min_key f xs = (case xs of [] \<Rightarrow> Inl ValueError | x # rest \<Rightarrow> Inr (min_by f x rest))"

section \<open>routing/adaptive\_routing.py: FlowletRouter\<close>

type_synonym flow_key = "string \<times> string \<times> nat"
type_synonym path_id = nat

record FlowletRouter =
  flowlet_timeout :: real
  flowlet_table :: "flow_key \<rightharpoonup> (real \<times> path_id)"
  path_loads :: "path_id \<rightharpoonup> real"

definition FlowletRouter_init :: "real \<Rightarrow> FlowletRouter" where
  "FlowletRouter_init timeout =
     \<lparr>flowlet_timeout = timeout, flowlet_table = Map.empty, path_loads = Map.empty\<rparr>"

text \<open>\<open>self.path_loads.get(p, 0)\<close>\<close>

definition path_load :: "FlowletRouter \<Rightarrow> path_id \<Rightarrow> real" where
  "path_load r p = (case path_loads r p of None \<Rightarrow> 0 | Some l \<Rightarrow> l)"

text \<open>The new-flowlet branch of \<open>get_flowlet_path\<close> (source lines 53 to 58).\<close>

definition new_flowlet ::
  "FlowletRouter \<Rightarrow> flow_key \<Rightarrow> path_id list \<Rightarrow> real \<Rightarrow> py_error + (path_id \<times> FlowletRouter)" where
  "new_flowlet r flow_key available_paths current_time =
     (case py_min_key (path_load r) available_paths of
        Inl e \<Rightarrow> Inl e
      | Inr selected_path \<Rightarrow>
          Inr (selected_path,
               r\<lparr>flowlet_table := (flowlet_table r)(flow_key \<mapsto> (current_time, selected_path))\<rparr>))"

definition get_flowlet_path ::
  "FlowletRouter \<Rightarrow> flow_key \<Rightarrow> path_id list \<Rightarrow> real \<Rightarrow> py_error + (path_id \<times> FlowletRouter)" where
  "get_flowlet_path r flow_key available_paths current_time =
     (case flowlet_table r flow_key of
        Some (last_time, last_path) \<Rightarrow>
          if current_time - last_time < flowlet_timeout r
          then Inr (last_path,
                    r\<lparr>flowlet_table := (flowlet_table r)(flow_key \<mapsto> (current_time, last_path))\<rparr>)
          else new_flowlet r flow_key available_paths current_time
      | None \<Rightarrow> new_flowlet r flow_key available_paths current_time)"

text \<open>\<open>self.path_loads[path_id] += load_delta\<close> on a \<open>defaultdict(lambda: 0)\<close>.\<close>

definition update_path_load :: "FlowletRouter \<Rightarrow> path_id \<Rightarrow> real \<Rightarrow> FlowletRouter" where
  "update_path_load r p load_delta = r\<lparr>path_loads := (path_loads r)(p \<mapsto> path_load r p + load_delta)\<rparr>"

text \<open>
  The condition under which \<open>get_flowlet_path\<close> reaches its new-flowlet branch: the key has
  no entry, or the test \<open>current_time - last_time < self.flowlet_timeout\<close> fails.
\<close>

definition stale_or_absent :: "FlowletRouter \<Rightarrow> flow_key \<Rightarrow> real \<Rightarrow> bool" where
  "stale_or_absent r k t =
     (case flowlet_table r k of None \<Rightarrow> True | Some (t0, p0) \<Rightarrow> \<not> t - t0 < flowlet_timeout r)"

section \<open>routing/adaptive\_routing.py: CongestionAwareRouter\<close>

text \<open>
  A link is a \<open>(switch, port)\<close> tuple; \<open>link_stats\<close> holds the latest reading per link.
  The record has the fields that \<open>__init__\<close> sets; \<open>get_path_score\<close> and \<open>select_path\<close>
  read \<open>link_stats\<close> only.
\<close>

type_synonym link = "string \<times> nat"

record link_stat =
  util :: real
  queue :: int
  bytes_tx :: int
  bytes_rx :: int

record CongestionAwareRouter =
  probe_interval :: real
  congestion_threshold :: real
  link_stats :: "link \<rightharpoonup> link_stat"
  monitoring :: bool

definition CongestionAwareRouter_init :: "real \<Rightarrow> real \<Rightarrow> CongestionAwareRouter" where
  "CongestionAwareRouter_init interval threshold =
     \<lparr>probe_interval = interval, congestion_threshold = threshold,
      link_stats = Map.empty, monitoring = False\<rparr>"

text \<open>\<open>self.link_stats.get((switch, port), {'util': 0.0})['util']\<close>\<close>

definition link_util :: "CongestionAwareRouter \<Rightarrow> link \<Rightarrow> real" where
  "link_util c l = (case link_stats c l of None \<Rightarrow> 0 | Some stats \<Rightarrow> util stats)"

text \<open>The loop of \<open>get_path_score\<close> that accumulates \<open>total_congestion\<close>.\<close>

fun total_congestion :: "CongestionAwareRouter \<Rightarrow> real \<Rightarrow> link list \<Rightarrow> real" where
  "total_congestion c tot [] = tot"
| "total_congestion c tot ((switch, port) # rest) =
     total_congestion c (tot + link_util c (switch, port)) rest"

definition get_path_score :: "CongestionAwareRouter \<Rightarrow> path_id \<Rightarrow> link list \<Rightarrow> real" where
  "get_path_score c path_id path_links =
     (if path_links = [] then 0
      else total_congestion c 0 path_links / real (length path_links))"

text \<open>
  A Python dict keeps its keys in insertion order; assigning to a key that is present
  replaces the value and leaves the key where it is.
\<close>

fun dict_set :: "('k \<times> 'v) list \<Rightarrow> 'k \<Rightarrow> 'v \<Rightarrow> ('k \<times> 'v) list" where
  "dict_set [] k v = [(k, v)]"
| "dict_set ((k', v') # d) k v = (if k' = k then (k, v) # d else (k', v') # dict_set d k v)"

text \<open>\<open>path_links_map.get(path_id, [])\<close>\<close>

definition path_links_of :: "(path_id \<rightharpoonup> link list) \<Rightarrow> path_id \<Rightarrow> link list" where
  "path_links_of path_links_map path_id =
     (case path_links_map path_id of None \<Rightarrow> [] | Some links \<Rightarrow> links)"

text \<open>The loop of \<open>select_path\<close> that fills \<open>path_scores\<close>.\<close>

fun fill_path_scores ::
  "CongestionAwareRouter \<Rightarrow> (path_id \<rightharpoonup> link list) \<Rightarrow> (path_id \<times> real) list
     \<Rightarrow> path_id list \<Rightarrow> (path_id \<times> real) list" where
  "fill_path_scores c path_links_map path_scores [] = path_scores"
| "fill_path_scores c path_links_map path_scores (path_id # rest) =
     fill_path_scores c path_links_map
       (dict_set path_scores path_id
          (get_path_score c path_id (path_links_of path_links_map path_id)))
       rest"

text \<open>
  \<open>min(path_scores.keys(), key=lambda p: path_scores[p])\<close>: the keys are those of the dict
  itself, so the lookup never misses; the model's default 0 is not reached.
\<close>

definition select_path ::
  "CongestionAwareRouter \<Rightarrow> path_id list \<Rightarrow> (path_id \<rightharpoonup> link list) \<Rightarrow> py_error + path_id" where
  "select_path c available_paths path_links_map =
     (let path_scores = fill_path_scores c path_links_map [] available_paths
      in py_min_key (\<lambda>p. case map_of path_scores p of Some s \<Rightarrow> s | None \<Rightarrow> 0)
                    (map fst path_scores))"

section \<open>routing/monitor.py: NetworkMonitor\<close>

text \<open>
  A sample is what \<open>_collect_sample\<close> builds: a timestamp and, per switch name, the parsed
  port counters keyed by the port number as a string. Dicts are association lists in insertion
  order (keys distinct); iterating over a dict's keys and indexing the dict with the key is
  written as iterating over its items. Of the monitor's fields, \<open>compute_link_utilization\<close>
  reads \<open>samples\<close> and \<open>sample_interval\<close>.
\<close>

record port_stats =
  rx_packets :: int
  rx_bytes :: int
  rx_drops :: int
  tx_packets :: int
  tx_bytes :: int
  tx_drops :: int

record switch_stats =
  ports :: "(string \<times> port_stats) list"

record sample =
  timestamp :: string
  switches :: "(string \<times> switch_stats) list"

record NetworkMonitor =
  sample_interval :: real
  samples :: "sample list"

type_synonym utilization = "(string \<times> real list) list"

text \<open>\<open>f"{switch_name}:{port_num}"\<close>\<close>

definition link_id :: "string \<Rightarrow> string \<Rightarrow> string" where
  "link_id switch_name port_num = switch_name @ '':'' @ port_num"

text \<open>
  The body of the innermost loop (source lines 194 to 203). Dividing by a zero
  \<open>time_delta\<close> raises \<open>ZeroDivisionError\<close>.
\<close>

definition util_pct :: "real \<Rightarrow> int \<Rightarrow> int \<Rightarrow> py_error + real" where
  "util_pct time_delta prev_tx curr_tx =
     (let bytes_delta = curr_tx - prev_tx;
          link_capacity_bps = (1000 * 1000 * 1000 :: int);
          bits_delta = bytes_delta * 8
      in if time_delta = 0 then Inl ZeroDivisionError
         else Inr ((real_of_int bits_delta / time_delta) / real_of_int link_capacity_bps * 100))"

text \<open>
  \<open>if link_id not in utilization: utilization[link_id] = []\<close> followed by
  \<open>utilization[link_id].append(util_pct)\<close>.
\<close>

definition append_util :: "utilization \<Rightarrow> string \<Rightarrow> real \<Rightarrow> utilization" where
  "append_util u lid x =
     dict_set u lid ((case map_of u lid of None \<Rightarrow> [] | Some l \<Rightarrow> l) @ [x])"

fun ports_loop ::
  "real \<Rightarrow> string \<Rightarrow> (string \<times> port_stats) list \<Rightarrow> (string \<times> port_stats) list
     \<Rightarrow> utilization \<Rightarrow> py_error + utilization" where
  "ports_loop dt switch_name prev_ports [] u = Inr u"
| "ports_loop dt switch_name prev_ports ((port_num, cur) # rest) u =
     (case map_of prev_ports port_num of
        None \<Rightarrow> ports_loop dt switch_name prev_ports rest u
      | Some prv \<Rightarrow>
          (case util_pct dt (tx_bytes prv) (tx_bytes cur) of
             Inl e \<Rightarrow> Inl e
           | Inr x \<Rightarrow>
               ports_loop dt switch_name prev_ports rest
                 (append_util u (link_id switch_name port_num) x)))"

fun switches_loop ::
  "real \<Rightarrow> (string \<times> switch_stats) list \<Rightarrow> (string \<times> switch_stats) list
     \<Rightarrow> utilization \<Rightarrow> py_error + utilization" where
  "switches_loop dt prev_switches [] u = Inr u"
| "switches_loop dt prev_switches ((switch_name, cur) # rest) u =
     (case map_of prev_switches switch_name of
        None \<Rightarrow> switches_loop dt prev_switches rest u
      | Some prv \<Rightarrow>
          (case ports_loop dt switch_name (ports prv) (ports cur) u of
             Inl e \<Rightarrow> Inl e
           | Inr u' \<Rightarrow> switches_loop dt prev_switches rest u'))"

text \<open>The loop over \<open>range(1, len(self.samples))\<close>, carrying the previous sample.\<close>

fun samples_loop :: "real \<Rightarrow> sample \<Rightarrow> sample list \<Rightarrow> utilization \<Rightarrow> py_error + utilization" where
  "samples_loop dt prev_sample [] u = Inr u"
| "samples_loop dt prev_sample (curr_sample # rest) u =
     (case switches_loop dt (switches prev_sample) (switches curr_sample) u of
        Inl e \<Rightarrow> Inl e
      | Inr u' \<Rightarrow> samples_loop dt curr_sample rest u')"

definition compute_link_utilization :: "NetworkMonitor \<Rightarrow> py_error + utilization" where
  "compute_link_utilization m =
     (case samples m of
        s0 # s1 # rest \<Rightarrow> samples_loop (sample_interval m) s0 (s1 # rest) []
      | _ \<Rightarrow> Inr [])"

text \<open>A utilization value recorded for a link in the result.\<close>

definition has_util :: "utilization \<Rightarrow> string \<Rightarrow> real \<Rightarrow> bool" where
  "has_util u lid x = (case map_of u lid of None \<Rightarrow> False | Some l \<Rightarrow> x \<in> set l)"

section \<open>routing/monitor.py: FlowCompletionTracker\<close>

text \<open>
  A closed flow record as \<open>end_flow\<close> appends it to \<open>completed_flows\<close>. List indexing raises
  \<open>IndexError\<close> out of range; the indices used here are never negative.
\<close>

record flow =
  src :: string
  dst :: string
  flow_size :: int
  start_time :: real
  end_time :: real
  fct :: real

record fct_stats =
  fct_count :: nat
  fct_mean :: real
  fct_median :: real
  fct_p95 :: real
  fct_p99 :: real
  fct_max :: real
  fct_min :: real

definition py_index :: "'a list \<Rightarrow> nat \<Rightarrow> py_error + 'a" where
  "py_index xs i = (if i < length xs then Inr (xs ! i) else Inl IndexError)"

text \<open>\<open>int(n * 0.95)\<close> and \<open>int(n * 0.99)\<close> for a list length \<open>n\<close>.\<close>

definition p95_index :: "nat \<Rightarrow> nat" where
  "p95_index n = nat \<lfloor>real n * (95 / 100)\<rfloor>"

definition p99_index :: "nat \<Rightarrow> nat" where
  "p99_index n = nat \<lfloor>real n * (99 / 100)\<rfloor>"

text \<open>
  \<open>get_fct_stats\<close>: the empty dict of the source is \<open>None\<close>. \<open>max\<close> and \<open>min\<close> run over a
  non-empty list there.
\<close>

definition get_fct_stats :: "flow list \<Rightarrow> py_error + fct_stats option" where
  "get_fct_stats completed_flows =
     (if completed_flows = [] then Inr None
      else
        let fcts = sort (map fct completed_flows);
            n = length fcts
        in case py_index fcts (n div 2) of
             Inl e \<Rightarrow> Inl e
           | Inr med \<Rightarrow>
               (case (if n > 0 then py_index fcts (p95_index n) else Inr 0) of
                  Inl e \<Rightarrow> Inl e
                | Inr q95 \<Rightarrow>
                    (case (if n > 0 then py_index fcts (p99_index n) else Inr 0) of
                       Inl e \<Rightarrow> Inl e
                     | Inr q99 \<Rightarrow>
                         Inr (Some \<lparr>fct_count = n, fct_mean = sum_list fcts / real n,
                                    fct_median = med, fct_p95 = q95, fct_p99 = q99,
                                    fct_max = fold max (tl fcts) (hd fcts),
                                    fct_min = fold min (tl fcts) (hd fcts)\<rparr>))))"

text \<open>A closed record with a given completion time, started at time 0.\<close>

definition closed_flow :: "real \<Rightarrow> flow" where
  "closed_flow t =
     \<lparr>src = ''h1'', dst = ''h5'', flow_size = 1000, start_time = 0, end_time = t, fct = t\<rparr>"

section \<open>analyze\_results.py: ResultsAnalyzer\<close>

text \<open>
  The results file as \<open>analyze_utilization\<close> reads it: an optional \<open>monitoring\<close> entry holding
  an optional \<open>link_utilization\<close> dict from link id to that link's summary. \<open>np.mean\<close> is the
  arithmetic mean and \<open>np.std\<close> the population standard deviation.
\<close>

record link_summary =
  util_mean :: real
  util_max :: real
  util_min :: real
  util_samples :: nat

record monitoring_data =
  link_utilization :: "(string \<times> link_summary) list option"

record results_data =
  monitoring_entry :: "monitoring_data option"

record utilization_summary =
  avg_mean_util :: real
  avg_max_util :: real
  std_util :: real
  balance_score :: real
  num_links :: nat

definition np_mean :: "real list \<Rightarrow> real" where
  "np_mean xs = sum_list xs / real (length xs)"

definition np_std :: "real list \<Rightarrow> real" where
  "np_std xs = sqrt (np_mean (map (\<lambda>x. \<bar>x - np_mean xs\<bar> ^ 2) xs))"

definition analyze_utilization :: "results_data \<Rightarrow> utilization_summary option" where
  "analyze_utilization data =
     (case monitoring_entry data of
        None \<Rightarrow> None
      | Some mon \<Rightarrow>
          (let link_util = (case link_utilization mon of None \<Rightarrow> [] | Some d \<Rightarrow> d)
           in if link_util = [] then None
              else
                let mean_utils = map (\<lambda>(lid, stats). util_mean stats) link_util;
                    max_utils = map (\<lambda>(lid, stats). util_max stats) link_util
                in Some \<lparr>avg_mean_util = np_mean mean_utils,
                         avg_max_util = np_mean max_utils,
                         std_util = np_std mean_utils,
                         balance_score =
                           (if np_mean mean_utils > 0
                            then 1.0 - (np_std mean_utils / np_mean mean_utils) else 0),
                         num_links = length link_util\<rparr>))"

text \<open>
  A results file with the given \<open>link_utilization\<close> dict, and the summary of a link whose
  utilization was \<open>u\<close> in its one interval.
\<close>

definition results_of :: "(string \<times> link_summary) list \<Rightarrow> results_data" where
  "results_of lu = \<lparr>monitoring_entry = Some \<lparr>link_utilization = Some lu\<rparr>\<rparr>"

definition steady_link :: "real \<Rightarrow> link_summary" where
  "steady_link u = \<lparr>util_mean = u, util_max = u, util_min = u, util_samples = 1\<rparr>"

section \<open>analyze\_results.py: ComparisonAnalyzer\<close>

text \<open>
  \<open>compare_metrics\<close> reads, from each of the two summaries of \<open>get_summary\<close>, the entries
  below; a missing entry is \<open>None\<close>. Python's \<open>/\<close> raises \<open>ZeroDivisionError\<close> on a zero
  divisor.
\<close>

record throughput_summary =
  mean_mbps :: real
  fct_p99_opt :: "real option"

record drops_summary =
  total_drops :: real
  num_congested_links :: nat
  avg_drops_per_link :: real

record summary =
  throughput :: "throughput_summary option"
  utilization :: "utilization_summary option"
  drops :: "drops_summary option"

text \<open>
  An entry of the comparison: the ECMP value, the adaptive value and the percentage
  (\<open>improvement_pct\<close> or \<open>reduction_pct\<close>).
\<close>

record metric_comparison =
  ecmp_value :: real
  adaptive_value :: real
  change_pct :: real

record comparison =
  cmp_throughput :: "metric_comparison option"
  cmp_balance :: "metric_comparison option"
  cmp_drops :: "metric_comparison option"
  cmp_tail_latency :: "metric_comparison option"

definition py_truediv :: "real \<Rightarrow> real \<Rightarrow> py_error + real" where
  "py_truediv a b = (if b = 0 then Inl ZeroDivisionError else Inr (a / b))"

text \<open>\<open>((a - b) / c) * 100 if c > 0 else 0\<close>\<close>

definition guarded_pct :: "real \<Rightarrow> real \<Rightarrow> real \<Rightarrow> py_error + real" where
  "guarded_pct a b c =
     (if c > 0 then (case py_truediv (a - b) c of Inl e \<Rightarrow> Inl e | Inr q \<Rightarrow> Inr (q * 100))
      else Inr 0)"

definition compare_throughput :: "summary \<Rightarrow> summary \<Rightarrow> py_error + metric_comparison option" where
  "compare_throughput ecmp_summary adaptive_summary =
     (case (throughput ecmp_summary, throughput adaptive_summary) of
        (Some e, Some a) \<Rightarrow>
          (let ecmp_tp = mean_mbps e; adaptive_tp = mean_mbps a
           in case guarded_pct adaptive_tp ecmp_tp ecmp_tp of
                Inl err \<Rightarrow> Inl err
              | Inr improvement \<Rightarrow>
                  Inr (Some \<lparr>ecmp_value = ecmp_tp, adaptive_value = adaptive_tp,
                             change_pct = improvement\<rparr>))
      | _ \<Rightarrow> Inr None)"

definition compare_balance :: "summary \<Rightarrow> summary \<Rightarrow> py_error + metric_comparison option" where
  "compare_balance ecmp_summary adaptive_summary =
     (case (utilization ecmp_summary, utilization adaptive_summary) of
        (Some e, Some a) \<Rightarrow>
          (let ecmp_balance = balance_score e; adaptive_balance = balance_score a
           in case guarded_pct adaptive_balance ecmp_balance ecmp_balance of
                Inl err \<Rightarrow> Inl err
              | Inr improvement \<Rightarrow>
                  Inr (Some \<lparr>ecmp_value = ecmp_balance, adaptive_value = adaptive_balance,
                             change_pct = improvement\<rparr>))
      | _ \<Rightarrow> Inr None)"

definition compare_drops :: "summary \<Rightarrow> summary \<Rightarrow> py_error + metric_comparison option" where
  "compare_drops ecmp_summary adaptive_summary =
     (case (drops ecmp_summary, drops adaptive_summary) of
        (Some e, Some a) \<Rightarrow>
          (let ecmp_drops = total_drops e; adaptive_drops = total_drops a
           in case guarded_pct ecmp_drops adaptive_drops ecmp_drops of
                Inl err \<Rightarrow> Inl err
              | Inr reduction \<Rightarrow>
                  Inr (Some \<lparr>ecmp_value = ecmp_drops, adaptive_value = adaptive_drops,
                             change_pct = reduction\<rparr>))
      | _ \<Rightarrow> Inr None)"

definition compare_tail_latency :: "summary \<Rightarrow> summary \<Rightarrow> py_error + metric_comparison option" where
  "compare_tail_latency ecmp_summary adaptive_summary =
     (case (throughput ecmp_summary, throughput adaptive_summary) of
        (Some e, Some a) \<Rightarrow>
          (case (fct_p99_opt e, fct_p99_opt a) of
             (Some ecmp_fct, Some adaptive_fct) \<Rightarrow>
               (case guarded_pct ecmp_fct adaptive_fct ecmp_fct of
                  Inl err \<Rightarrow> Inl err
                | Inr improvement \<Rightarrow>
                    Inr (Some \<lparr>ecmp_value = ecmp_fct, adaptive_value = adaptive_fct,
                               change_pct = improvement\<rparr>))
           | _ \<Rightarrow> Inr None)
      | _ \<Rightarrow> Inr None)"

text \<open>The four blocks of \<open>compare_metrics\<close> in source order.\<close>

definition compare_metrics :: "summary \<Rightarrow> summary \<Rightarrow> py_error + comparison" where
  "compare_metrics ecmp_summary adaptive_summary =
     (case compare_throughput ecmp_summary adaptive_summary of
        Inl err \<Rightarrow> Inl err
      | Inr tp \<Rightarrow>
     (case compare_balance ecmp_summary adaptive_summary of
        Inl err \<Rightarrow> Inl err
      | Inr bal \<Rightarrow>
     (case compare_drops ecmp_summary adaptive_summary of
        Inl err \<Rightarrow> Inl err
      | Inr dr \<Rightarrow>
     (case compare_tail_latency ecmp_summary adaptive_summary of
        Inl err \<Rightarrow> Inl err
      | Inr lat \<Rightarrow>
          Inr \<lparr>cmp_throughput = tp, cmp_balance = bal, cmp_drops = dr,
               cmp_tail_latency = lat\<rparr>))))"

text \<open>The percentage of \<open>compare_metrics\<close> for a baseline \<open>old\<close> and the difference \<open>d\<close>.\<close>

definition pct_of :: "real \<Rightarrow> real \<Rightarrow> real" where
  "pct_of d old = (if old > 0 then d / old * 100 else 0)"

text \<open>
  The values that the four blocks of \<open>compare_metrics\<close> store when they do not raise, used to
  state what it returns.
\<close>

definition compared_throughput :: "summary \<Rightarrow> summary \<Rightarrow> metric_comparison option" where
  "compared_throughput es ad =
     (case (throughput es, throughput ad) of
        (Some e, Some a) \<Rightarrow>
          Some \<lparr>ecmp_value = mean_mbps e, adaptive_value = mean_mbps a,
                change_pct = pct_of (mean_mbps a - mean_mbps e) (mean_mbps e)\<rparr>
      | _ \<Rightarrow> None)"

definition compared_balance :: "summary \<Rightarrow> summary \<Rightarrow> metric_comparison option" where
  "compared_balance es ad =
     (case (utilization es, utilization ad) of
        (Some e, Some a) \<Rightarrow>
          Some \<lparr>ecmp_value = balance_score e, adaptive_value = balance_score a,
                change_pct = pct_of (balance_score a - balance_score e) (balance_score e)\<rparr>
      | _ \<Rightarrow> None)"

definition compared_drops :: "summary \<Rightarrow> summary \<Rightarrow> metric_comparison option" where
  "compared_drops es ad =
     (case (drops es, drops ad) of
        (Some e, Some a) \<Rightarrow>
          Some \<lparr>ecmp_value = total_drops e, adaptive_value = total_drops a,
                change_pct = pct_of (total_drops e - total_drops a) (total_drops e)\<rparr>
      | _ \<Rightarrow> None)"

definition compared_tail_latency :: "summary \<Rightarrow> summary \<Rightarrow> metric_comparison option" where
  "compared_tail_latency es ad =
     (case (throughput es, throughput ad) of
        (Some e, Some a) \<Rightarrow>
          (case (fct_p99_opt e, fct_p99_opt a) of
             (Some x, Some y) \<Rightarrow>
               Some \<lparr>ecmp_value = x, adaptive_value = y, change_pct = pct_of (x - y) x\<rparr>
           | _ \<Rightarrow> None)
      | _ \<Rightarrow> None)"

section \<open>routing/ecmp\_routing.py: ECMPRouter.build\_routing\_table\<close>

subsection \<open>String operations\<close>

text \<open>
  \<open>str(n)\<close> of a natural number as the f-strings render it, \<open>sub in s\<close>,
  \<open>s.replace(old, '')\<close>, and \<open>int(s)\<close>. The interface and node names of Mininet carry
  their numbers as plain decimal digits, and \<open>py_int\<close> reads such strings; every other string
  is a \<open>ValueError\<close> in the model.
\<close>

definition digit_chars :: string where
  "digit_chars = ''0123456789''"

fun str_nat :: "nat \<Rightarrow> string" where
  "str_nat n = (if n < 10 then [digit_chars ! n]
                else str_nat (n div 10) @ [digit_chars ! (n mod 10)])"

fun index_of :: "'a \<Rightarrow> 'a list \<Rightarrow> nat option" where
  "index_of c [] = None"
| "index_of c (x # xs) = (if x = c then Some 0 else map_option Suc (index_of c xs))"

fun parse_digits :: "nat \<Rightarrow> string \<Rightarrow> nat option" where
  "parse_digits acc [] = Some acc"
| "parse_digits acc (c # cs) =
     (case index_of c digit_chars of
        None \<Rightarrow> None
      | Some d \<Rightarrow> parse_digits (10 * acc + d) cs)"

definition py_int :: "string \<Rightarrow> py_error + nat" where
  "py_int s =
     (if s = [] then Inl ValueError
      else case parse_digits 0 s of None \<Rightarrow> Inl ValueError | Some n \<Rightarrow> Inr n)"

fun starts_with :: "string \<Rightarrow> string \<Rightarrow> bool" where
  "starts_with [] s = True"
| "starts_with (p # ps) [] = False"
| "starts_with (p # ps) (c # cs) = (p = c \<and> starts_with ps cs)"

fun py_in :: "string \<Rightarrow> string \<Rightarrow> bool" where
  "py_in sub [] = (sub = [])"
| "py_in sub (c # cs) = (starts_with sub (c # cs) \<or> py_in sub cs)"

function py_remove :: "string \<Rightarrow> string \<Rightarrow> string" where
  "py_remove old [] = []"
| "py_remove old (c # cs) =
     (if old \<noteq> [] \<and> starts_with old (c # cs)
      then py_remove old (drop (length old) (c # cs))
      else c # py_remove old cs)"
  by pat_completeness auto
termination
  by (relation "measure (\<lambda>(old, s). length s)") auto

subsection \<open>The network and the table\<close>

text \<open>
  Of the Mininet network the function reads, per switch name, the interface list
  (\<open>net.get(name).intfList()\<close>, \<open>KeyError\<close> for an unknown name) and, per interface, its name
  and the name of the node at the other end of its link (\<open>None\<close> when \<open>intf.link\<close> is
  \<open>None\<close>). The routing table is a \<open>defaultdict(list)\<close> from switch name to rules.
\<close>

record intf =
  intf_name :: string
  peer_node :: "string option"

type_synonym net = "string \<rightharpoonup> intf list"

record rule =
  dst_ip :: string
  out_ports :: "nat list"

type_synonym routing_table = "(string \<times> rule list) list"

record topology_info =
  num_spines :: nat
  num_leaves :: nat
  hosts_per_leaf :: nat

definition spine_name :: "nat \<Rightarrow> string" where
  "spine_name i = ''spine'' @ str_nat (i + 1)"

definition leaf_name :: "nat \<Rightarrow> string" where
  "leaf_name i = ''leaf'' @ str_nat (i + 1)"

text \<open>\<open>f'10.0.{leaf_num}.{h+1}'\<close> with the second number passed as it is printed.\<close>

definition host_ip :: "nat \<Rightarrow> nat \<Rightarrow> string" where
  "host_ip leaf_num host_num = ''10.0.'' @ str_nat leaf_num @ ''.'' @ str_nat host_num"

text \<open>\<open>int(intf_name.replace(f'{switch}-eth', ''))\<close>\<close>

definition port_of :: "string \<Rightarrow> intf \<Rightarrow> py_error + nat" where
  "port_of switch x = py_int (py_remove (switch @ ''-eth'') (intf_name x))"

definition rt_get :: "routing_table \<Rightarrow> string \<Rightarrow> rule list" where
  "rt_get rt k = (case map_of rt k of None \<Rightarrow> [] | Some rs \<Rightarrow> rs)"

text \<open>\<open>routing_table[k].append(r)\<close>\<close>

definition rt_append :: "routing_table \<Rightarrow> string \<Rightarrow> rule \<Rightarrow> routing_table" where
  "rt_append rt k r = dict_set rt k (rt_get rt k @ [r])"

text \<open>The loop that fills \<open>port_to_spine\<close> for a leaf (source lines 126 to 134).\<close>

fun leaf_port_to_spine ::
  "string \<Rightarrow> (string \<times> nat) list \<Rightarrow> intf list \<Rightarrow> py_error + (string \<times> nat) list" where
  "leaf_port_to_spine leaf port_to_spine [] = Inr port_to_spine"
| "leaf_port_to_spine leaf port_to_spine (x # rest) =
     (case peer_node x of
        None \<Rightarrow> leaf_port_to_spine leaf port_to_spine rest
      | Some peer \<Rightarrow>
          if py_in ''spine'' peer
          then (case port_of leaf x of
                  Inl e \<Rightarrow> Inl e
                | Inr port_num \<Rightarrow>
                    leaf_port_to_spine leaf (dict_set port_to_spine peer port_num) rest)
          else leaf_port_to_spine leaf port_to_spine rest)"

text \<open>The rules of one leaf (source lines 136 to 161).\<close>

definition local_host_rules :: "string \<Rightarrow> nat \<Rightarrow> nat \<Rightarrow> routing_table \<Rightarrow> routing_table" where
  "local_host_rules leaf leaf_num hosts rt =
     fold (\<lambda>h rt. rt_append rt leaf \<lparr>dst_ip = host_ip leaf_num (h + 1), out_ports = [h + 1]\<rparr>)
       [0..<hosts] rt"

definition remote_host_rules ::
  "string \<Rightarrow> nat \<Rightarrow> nat \<Rightarrow> nat \<Rightarrow> (string \<times> nat) list \<Rightarrow> routing_table \<Rightarrow> routing_table" where
  "remote_host_rules leaf leaf_idx leaves hosts port_to_spine rt =
     fold (\<lambda>remote_leaf_idx rt.
             if remote_leaf_idx = leaf_idx then rt
             else fold (\<lambda>h rt. rt_append rt leaf
                                 \<lparr>dst_ip = host_ip (remote_leaf_idx + 1) (h + 1),
                                  out_ports = map snd port_to_spine\<rparr>)
                    [0..<hosts] rt)
       [0..<leaves] rt"

definition build_leaf :: "net \<Rightarrow> nat \<Rightarrow> nat \<Rightarrow> nat \<Rightarrow> routing_table \<Rightarrow> py_error + routing_table" where
  "build_leaf net leaves hosts leaf_idx rt =
     (let leaf = leaf_name leaf_idx; leaf_num = leaf_idx + 1
      in case net leaf of
           None \<Rightarrow> Inl KeyError
         | Some intfs \<Rightarrow>
             (case leaf_port_to_spine leaf [] intfs of
                Inl e \<Rightarrow> Inl e
              | Inr port_to_spine \<Rightarrow>
                  Inr (remote_host_rules leaf leaf_idx leaves hosts port_to_spine
                         (local_host_rules leaf leaf_num hosts rt))))"

fun build_leaves ::
  "net \<Rightarrow> nat \<Rightarrow> nat \<Rightarrow> nat list \<Rightarrow> routing_table \<Rightarrow> py_error + routing_table" where
  "build_leaves net leaves hosts [] rt = Inr rt"
| "build_leaves net leaves hosts (leaf_idx # rest) rt =
     (case build_leaf net leaves hosts leaf_idx rt of
        Inl e \<Rightarrow> Inl e
      | Inr rt' \<Rightarrow> build_leaves net leaves hosts rest rt')"

text \<open>The loop that fills \<open>port_to_leaf\<close> for a spine (source lines 168 to 177).\<close>

fun spine_port_to_leaf ::
  "string \<Rightarrow> (nat \<times> nat) list \<Rightarrow> intf list \<Rightarrow> py_error + (nat \<times> nat) list" where
  "spine_port_to_leaf spine port_to_leaf [] = Inr port_to_leaf"
| "spine_port_to_leaf spine port_to_leaf (x # rest) =
     (case peer_node x of
        None \<Rightarrow> spine_port_to_leaf spine port_to_leaf rest
      | Some peer \<Rightarrow>
          if py_in ''leaf'' peer
          then (case port_of spine x of
                  Inl e \<Rightarrow> Inl e
                | Inr port_num \<Rightarrow>
                    (case py_int (py_remove ''leaf'' peer) of
                       Inl e \<Rightarrow> Inl e
                     | Inr leaf_num \<Rightarrow>
                         spine_port_to_leaf spine (dict_set port_to_leaf leaf_num port_num) rest))
          else spine_port_to_leaf spine port_to_leaf rest)"

text \<open>The rules of one spine (source lines 180 to 189).\<close>

definition spine_rules ::
  "string \<Rightarrow> nat \<Rightarrow> nat \<Rightarrow> (nat \<times> nat) list \<Rightarrow> routing_table \<Rightarrow> routing_table" where
  "spine_rules spine leaves hosts port_to_leaf rt =
     fold (\<lambda>leaf_idx rt.
             case map_of port_to_leaf (leaf_idx + 1) of
               None \<Rightarrow> rt
             | Some port \<Rightarrow>
                 fold (\<lambda>h rt. rt_append rt spine
                                 \<lparr>dst_ip = host_ip (leaf_idx + 1) (h + 1), out_ports = [port]\<rparr>)
                   [0..<hosts] rt)
       [0..<leaves] rt"

definition build_spine :: "net \<Rightarrow> nat \<Rightarrow> nat \<Rightarrow> string \<Rightarrow> routing_table \<Rightarrow> py_error + routing_table" where
  "build_spine net leaves hosts spine rt =
     (case net spine of
        None \<Rightarrow> Inl KeyError
      | Some intfs \<Rightarrow>
          (case spine_port_to_leaf spine [] intfs of
             Inl e \<Rightarrow> Inl e
           | Inr port_to_leaf \<Rightarrow> Inr (spine_rules spine leaves hosts port_to_leaf rt)))"

fun build_spines ::
  "net \<Rightarrow> nat \<Rightarrow> nat \<Rightarrow> string list \<Rightarrow> routing_table \<Rightarrow> py_error + routing_table" where
  "build_spines net leaves hosts [] rt = Inr rt"
| "build_spines net leaves hosts (spine # rest) rt =
     (case build_spine net leaves hosts spine rt of
        Inl e \<Rightarrow> Inl e
      | Inr rt' \<Rightarrow> build_spines net leaves hosts rest rt')"

definition build_routing_table :: "net \<Rightarrow> topology_info \<Rightarrow> py_error + routing_table" where
  "build_routing_table net info =
     (let spines = map spine_name [0..<num_spines info];
          leaves = num_leaves info;
          hosts = hosts_per_leaf info
      in case build_leaves net leaves hosts [0..<leaves] [] of
           Inl e \<Rightarrow> Inl e
         | Inr rt \<Rightarrow> build_spines net leaves hosts spines rt)"

subsection \<open>Full-mesh leaf-spine networks\<close>

text \<open>
  Mininet names the interface of switch \<open>sw\<close> with port number \<open>p\<close> \<open>sw-ethp\<close>.
\<close>

definition eth_name :: "string \<Rightarrow> nat \<Rightarrow> string" where
  "eth_name sw p = sw @ ''-eth'' @ str_nat p"

text \<open>
  The interfaces of a switch whose link leads to a node with \<open>spine\<close>, respectively
  \<open>leaf\<close>, in its name.
\<close>

definition spine_facing :: "intf list \<Rightarrow> intf list" where
  "spine_facing intfs =
     filter (\<lambda>x. case peer_node x of None \<Rightarrow> False | Some peer \<Rightarrow> py_in ''spine'' peer) intfs"

definition leaf_facing :: "intf list \<Rightarrow> intf list" where
  "leaf_facing intfs =
     filter (\<lambda>x. case peer_node x of None \<Rightarrow> False | Some peer \<Rightarrow> py_in ''leaf'' peer) intfs"

text \<open>
  The networks the claim is about, described by their names only. Leaf \<open>i\<close> is present, its
  spine-facing interfaces lead to the spines \<open>spine1\<close> to \<open>spineS\<close>, one interface each, and
  they are, in order, the interfaces with the pairwise different port numbers \<open>spine_ports\<close>.
  Spine \<open>s\<close> is present and its leaf-facing interfaces are, in order, those with the port
  numbers and the leaf numbers of \<open>links\<close>.
\<close>

definition leaf_ok :: "net \<Rightarrow> nat \<Rightarrow> nat \<Rightarrow> nat list \<Rightarrow> bool" where
  "leaf_ok net spines leaf_idx spine_ports =
     (case net (leaf_name leaf_idx) of
        None \<Rightarrow> False
      | Some intfs \<Rightarrow>
          distinct (map peer_node (spine_facing intfs))
          \<and> set (map peer_node (spine_facing intfs)) = set (map (Some \<circ> spine_name) [0..<spines])
          \<and> map intf_name (spine_facing intfs) = map (eth_name (leaf_name leaf_idx)) spine_ports
          \<and> distinct spine_ports)"

definition spine_ok :: "net \<Rightarrow> nat \<Rightarrow> (nat \<times> nat) list \<Rightarrow> bool" where
  "spine_ok net spine_idx links =
     (case net (spine_name spine_idx) of
        None \<Rightarrow> False
      | Some intfs \<Rightarrow>
          map (\<lambda>x. (intf_name x, peer_node x)) (leaf_facing intfs)
            = map (\<lambda>(p, k). (eth_name (spine_name spine_idx) p, Some (''leaf'' @ str_nat k))) links)"

definition full_mesh ::
  "net \<Rightarrow> nat \<Rightarrow> nat \<Rightarrow> (nat \<Rightarrow> nat list) \<Rightarrow> (nat \<Rightarrow> (nat \<times> nat) list) \<Rightarrow> bool" where
  "full_mesh net spines leaves leaf_ports spine_links =
     ((\<forall>i \<in> set [0..<leaves]. leaf_ok net spines i (leaf_ports i))
      \<and> (\<forall>s \<in> set [0..<spines]. spine_ok net s (spine_links s)))"

text \<open>
  The rules a leaf with index \<open>i\<close> gets when its spine-facing ports are \<open>spine_ports\<close>: one
  rule per local host, then one rule per host of every other leaf.
\<close>

definition leaf_rules :: "nat \<Rightarrow> nat \<Rightarrow> nat \<Rightarrow> nat list \<Rightarrow> rule list" where
  "leaf_rules i leaves hosts spine_ports =
     map (\<lambda>h. \<lparr>dst_ip = host_ip (i + 1) (h + 1), out_ports = [h + 1]\<rparr>) [0..<hosts]
     @ concat (map (\<lambda>j. if j = i then []
                         else map (\<lambda>h. \<lparr>dst_ip = host_ip (j + 1) (h + 1), out_ports = spine_ports\<rparr>)
                                [0..<hosts])
                 [0..<leaves])"

text \<open>
  The network of \<open>LeafSpineTopo\<close> for 2 spines, 2 leaves and 1 host per leaf: on a leaf the
  host link is added first and the spine links after it.
\<close>

definition example_net :: net where
  "example_net = map_of
     [(''leaf1'', [\<lparr>intf_name = ''lo'', peer_node = None\<rparr>,
                   \<lparr>intf_name = ''leaf1-eth1'', peer_node = Some ''h1''\<rparr>,
                   \<lparr>intf_name = ''leaf1-eth2'', peer_node = Some ''spine1''\<rparr>,
                   \<lparr>intf_name = ''leaf1-eth3'', peer_node = Some ''spine2''\<rparr>]),
      (''leaf2'', [\<lparr>intf_name = ''lo'', peer_node = None\<rparr>,
                   \<lparr>intf_name = ''leaf2-eth1'', peer_node = Some ''h2''\<rparr>,
                   \<lparr>intf_name = ''leaf2-eth2'', peer_node = Some ''spine1''\<rparr>,
                   \<lparr>intf_name = ''leaf2-eth3'', peer_node = Some ''spine2''\<rparr>]),
      (''spine1'', [\<lparr>intf_name = ''lo'', peer_node = None\<rparr>,
                    \<lparr>intf_name = ''spine1-eth1'', peer_node = Some ''leaf1''\<rparr>,
                    \<lparr>intf_name = ''spine1-eth2'', peer_node = Some ''leaf2''\<rparr>]),
      (''spine2'', [\<lparr>intf_name = ''lo'', peer_node = None\<rparr>,
                    \<lparr>intf_name = ''spine2-eth1'', peer_node = Some ''leaf1''\<rparr>,
                    \<lparr>intf_name = ''spine2-eth2'', peer_node = Some ''leaf2''\<rparr>])]"

section \<open>Properties of the builtin min\<close>

lemma min_by_mem: "min_by f b xs \<in> set (b # xs)"
  by (induction xs arbitrary: b) auto

lemma min_by_le_best: "f (min_by f b xs) \<le> f b"
proof (induction xs arbitrary: b)
  case Nil
  show ?case by simp
next
  case (Cons x xs)
  have "f (min_by f (if f x < f b then x else b) xs) \<le> f (if f x < f b then x else b)"
    by (rule Cons.IH)
  also have "\<dots> \<le> f b" by auto
  finally show ?case by simp
qed

lemma min_by_le: "y \<in> set (b # xs) \<Longrightarrow> f (min_by f b xs) \<le> f y"
proof (induction xs arbitrary: b)
  case Nil
  then show ?case by simp
next
  case (Cons x xs)
  let ?b = "if f x < f b then x else b"
  from Cons.prems consider "y = b" | "y = x" | "y \<in> set xs" by auto
  then show ?case
  proof cases
    case 1
    have "f (min_by f ?b xs) \<le> f ?b" by (rule min_by_le_best)
    also have "\<dots> \<le> f b" by auto
    finally show ?thesis using 1 by simp
  next
    case 2
    have "f (min_by f ?b xs) \<le> f ?b" by (rule min_by_le_best)
    also have "\<dots> \<le> f x" by auto
    finally show ?thesis using 2 by simp
  next
    case 3
    then have "y \<in> set (?b # xs)" by simp
    then have "f (min_by f ?b xs) \<le> f y" by (rule Cons.IH)
    then show ?thesis by simp
  qed
qed

text \<open>
  First-seen tie-break: the result sits at an index of the list such that every earlier
  element has a strictly larger key.
\<close>

lemma min_by_first:
  "\<exists>i < length (b # xs). (b # xs) ! i = min_by f b xs
       \<and> (\<forall>j < i. f (min_by f b xs) < f ((b # xs) ! j))"
proof (induction xs arbitrary: b)
  case Nil
  show ?case by simp
next
  case (Cons x xs)
  let ?b = "if f x < f b then x else b"
  let ?m = "min_by f ?b xs"
  from Cons.IH [of ?b] obtain i where i: "i < length (?b # xs)" "(?b # xs) ! i = ?m"
    "\<forall>j < i. f ?m < f ((?b # xs) ! j)" by blast
  have mb: "f ?m \<le> f ?b" by (rule min_by_le_best)
  show ?case
  proof (cases i)
    case 0
    then have m: "?m = ?b" using i(2) by simp
    show ?thesis
    proof (cases "f x < f b")
      case True
      then have "(b # x # xs) ! 1 = min_by f b (x # xs)" using m by simp
      moreover have "\<forall>j < (1::nat). f (min_by f b (x # xs)) < f ((b # x # xs) ! j)"
        using True m by simp
      ultimately show ?thesis by (intro exI [of _ 1]) simp
    next
      case False
      then have "(b # x # xs) ! 0 = min_by f b (x # xs)" using m by simp
      then show ?thesis by (intro exI [of _ 0]) simp
    qed
  next
    case (Suc i')
    have lt: "f ?m < f ?b" using i(3) Suc by (metis nth_Cons_0 zero_less_Suc)
    have "(b # x # xs) ! Suc i = min_by f b (x # xs)" using i(2) Suc by simp
    moreover have "\<forall>j < Suc i. f (min_by f b (x # xs)) < f ((b # x # xs) ! j)"
    proof (intro allI impI)
      fix j assume j: "j < Suc i"
      show "f (min_by f b (x # xs)) < f ((b # x # xs) ! j)"
      proof (cases j)
        case 0
        have "f ?b \<le> f b" by auto
        with lt show ?thesis using 0 by simp
      next
        case (Suc j')
        show ?thesis
        proof (cases j')
          case 0
          have "f ?b \<le> f x" by auto
          with lt show ?thesis using Suc 0 by simp
        next
          case (Suc j'')
          then have "j' < i" using j \<open>j = Suc j'\<close> by simp
          then have "f ?m < f ((?b # xs) ! j')" using i(3) by blast
          then show ?thesis using \<open>j = Suc j'\<close> Suc by simp
        qed
      qed
    qed
    moreover have "Suc i < length (b # x # xs)" using i(1) by simp
    ultimately show ?thesis by blast
  qed
qed

section \<open>Properties of FlowletRouter\<close>

lemma get_flowlet_path_entry:
  "get_flowlet_path r k paths t = Inr (p, r') \<Longrightarrow>
     flowlet_table r' k = Some (t, p) \<and> flowlet_timeout r' = flowlet_timeout r
     \<and> path_loads r' = path_loads r"
  by (auto simp: get_flowlet_path_def new_flowlet_def split: option.splits if_splits sum.splits)

lemma get_flowlet_path_other_key:
  "get_flowlet_path r k' paths t = Inr (p, r') \<Longrightarrow> k' \<noteq> k \<Longrightarrow> flowlet_table r' k = flowlet_table r k"
  by (auto simp: get_flowlet_path_def new_flowlet_def split: option.splits if_splits sum.splits)

lemma get_flowlet_path_fresh:
  "flowlet_table r k = Some (t0, p) \<Longrightarrow> t - t0 < flowlet_timeout r \<Longrightarrow>
   get_flowlet_path r k paths t = Inr (p, r\<lparr>flowlet_table := (flowlet_table r)(k \<mapsto> (t, p))\<rparr>)"
  by (simp add: get_flowlet_path_def)

lemma get_flowlet_path_new:
  "stale_or_absent r k t \<Longrightarrow> get_flowlet_path r k paths t = new_flowlet r k paths t"
  by (auto simp: stale_or_absent_def get_flowlet_path_def split: option.splits)

lemma new_flowlet_nonempty:
  "paths \<noteq> [] \<Longrightarrow>
   new_flowlet r k paths t
     = Inr (min_by (path_load r) (hd paths) (tl paths),
            r\<lparr>flowlet_table := (flowlet_table r)(k \<mapsto> (t, min_by (path_load r) (hd paths) (tl paths)))\<rparr>)"
  by (cases paths) (simp_all add: new_flowlet_def py_min_key_def)

lemma path_load_cong: "path_loads r' = path_loads r \<Longrightarrow> path_load r' = path_load r"
  by (rule ext) (simp add: path_load_def)

text \<open>
  Claim C1 (flowlet stickiness). If the flow key has an entry \<open>(t0, p)\<close> and the call's
  \<open>current_time\<close> satisfies \<open>current_time - t0 < flowlet_timeout\<close>, then
  \<open>get_flowlet_path\<close> returns \<open>p\<close> and the table afterwards holds \<open>(current_time, p)\<close>
  for that key, whatever \<open>available_paths\<close> is. Hence a second call for the same key, less
  than \<open>flowlet_timeout\<close> after a first successful one, returns the first call's path; and a
  call for another key leaves the entry and the timeout untouched.
\<close>

theorem flowlet_stickiness:
  "(flowlet_table r k = Some (t0, p) \<and> t - t0 < flowlet_timeout r \<longrightarrow>
      get_flowlet_path r k paths t
        = Inr (p, r\<lparr>flowlet_table := (flowlet_table r)(k \<mapsto> (t, p))\<rparr>))
   \<and> (get_flowlet_path r k paths1 t1 = Inr (p1, r1) \<and> t2 - t1 < flowlet_timeout r \<longrightarrow>
      get_flowlet_path r1 k paths2 t2
        = Inr (p1, r1\<lparr>flowlet_table := (flowlet_table r1)(k \<mapsto> (t2, p1))\<rparr>))
   \<and> (get_flowlet_path r k' paths3 t3 = Inr (p3, r3) \<and> k' \<noteq> k \<longrightarrow>
      flowlet_table r3 k = flowlet_table r k \<and> flowlet_timeout r3 = flowlet_timeout r)"
proof (intro conjI impI)
  assume "flowlet_table r k = Some (t0, p) \<and> t - t0 < flowlet_timeout r"
  then show "get_flowlet_path r k paths t
        = Inr (p, r\<lparr>flowlet_table := (flowlet_table r)(k \<mapsto> (t, p))\<rparr>)"
    by (simp add: get_flowlet_path_fresh)
next
  assume a: "get_flowlet_path r k paths1 t1 = Inr (p1, r1) \<and> t2 - t1 < flowlet_timeout r"
  then have "flowlet_table r1 k = Some (t1, p1)" "flowlet_timeout r1 = flowlet_timeout r"
    using get_flowlet_path_entry by blast+
  with a show "get_flowlet_path r1 k paths2 t2
        = Inr (p1, r1\<lparr>flowlet_table := (flowlet_table r1)(k \<mapsto> (t2, p1))\<rparr>)"
    by (simp add: get_flowlet_path_fresh)
next
  assume a: "get_flowlet_path r k' paths3 t3 = Inr (p3, r3) \<and> k' \<noteq> k"
  then show "flowlet_table r3 k = flowlet_table r k"
    using get_flowlet_path_other_key by blast
  from a show "flowlet_timeout r3 = flowlet_timeout r"
    using get_flowlet_path_entry by blast
qed

theorem flowlet_stickiness_witness:
  "(let k = (''10.0.1.1'', ''10.0.2.1'', 1::nat);
        k' = (''10.0.1.2'', ''10.0.2.1'', 1::nat);
        r = (FlowletRouter_init (1/20))\<lparr>flowlet_table := [k \<mapsto> (0, 7)]\<rparr>;
        r1 = r\<lparr>flowlet_table := [k \<mapsto> (1/100, 7)]\<rparr>
    in flowlet_table r k = Some (0, 7) \<and> 1/100 - 0 < flowlet_timeout r
       \<and> get_flowlet_path r k [3, 4] (1/100) = Inr (7, r1)
       \<and> 3/100 - 1/100 < flowlet_timeout r
       \<and> get_flowlet_path r1 k [] (3/100) = Inr (7, r1\<lparr>flowlet_table := [k \<mapsto> (3/100, 7)]\<rparr>)
       \<and> get_flowlet_path r k' [3, 4] 5 = Inr (3, r\<lparr>flowlet_table := [k \<mapsto> (0, 7), k' \<mapsto> (5, 3)]\<rparr>)
       \<and> k' \<noteq> k
       \<and> flowlet_table (r\<lparr>flowlet_table := [k \<mapsto> (0, 7), k' \<mapsto> (5, 3)]\<rparr>) k = flowlet_table r k)"
  using flowlet_stickiness [of "(FlowletRouter_init (1/20))\<lparr>flowlet_table := [(''10.0.1.1'', ''10.0.2.1'', 1::nat) \<mapsto> (0, 7)]\<rparr>"
      "(''10.0.1.1'', ''10.0.2.1'', 1::nat)" 0 7 "1/100" "[3, 4]" "[3, 4]" "1/100" 7
      "(FlowletRouter_init (1/20))\<lparr>flowlet_table := [(''10.0.1.1'', ''10.0.2.1'', 1::nat) \<mapsto> (1/100, 7)]\<rparr>"
      "3/100" "[]" "(''10.0.1.2'', ''10.0.2.1'', 1::nat)" "[3, 4]" 5 3
      "(FlowletRouter_init (1/20))\<lparr>flowlet_table := [(''10.0.1.1'', ''10.0.2.1'', 1::nat) \<mapsto> (0, 7), (''10.0.1.2'', ''10.0.2.1'', 1::nat) \<mapsto> (5, 3)]\<rparr>"]
  by (simp add: Let_def FlowletRouter_init_def get_flowlet_path_def new_flowlet_def py_min_key_def path_load_def)

text \<open>
  Claim C2 (new-flowlet selection), as the code has it. On the new-flowlet branch with a non-empty
  \<open>available_paths\<close>, \<open>get_flowlet_path\<close> returns a path of minimal load, records
  \<open>(current_time, path)\<close> for the key, and resolves ties by position in
  \<open>available_paths\<close>: every path listed before the chosen one has a strictly larger load.
  The choice depends on the load map and the list only. The path identifier plays no part in
  the tie-break: with equal loads and \<open>available_paths = [2, 1]\<close> the result is 2.
\<close>

theorem new_flowlet_selection:
  assumes "stale_or_absent r k t" and "paths \<noteq> []"
  shows "\<exists>p i. get_flowlet_path r k paths t
                 = Inr (p, r\<lparr>flowlet_table := (flowlet_table r)(k \<mapsto> (t, p))\<rparr>)
     \<and> i < length paths \<and> paths ! i = p
     \<and> (\<forall>q \<in> set paths. path_load r p \<le> path_load r q)
     \<and> (\<forall>j < i. path_load r p < path_load r (paths ! j))
     \<and> (\<forall>r' k' t'. path_loads r' = path_loads r \<and> stale_or_absent r' k' t' \<longrightarrow>
           map_sum id fst (get_flowlet_path r' k' paths t') = Inr p)"
proof -
  obtain x xs where paths: "paths = x # xs" using assms(2) by (cases paths) auto
  let ?p = "min_by (path_load r) x xs"
  have res: "get_flowlet_path r k paths t
               = Inr (?p, r\<lparr>flowlet_table := (flowlet_table r)(k \<mapsto> (t, ?p))\<rparr>)"
    using assms paths by (simp add: get_flowlet_path_new new_flowlet_nonempty)
  obtain i where i: "i < length paths" "paths ! i = ?p"
    "\<forall>j < i. path_load r ?p < path_load r (paths ! j)"
    using min_by_first [of x xs "path_load r"] paths by blast
  have le: "\<forall>q \<in> set paths. path_load r ?p \<le> path_load r q"
    using min_by_le [of _ x xs "path_load r"] paths by blast
  have det: "\<forall>r' k' t'. path_loads r' = path_loads r \<and> stale_or_absent r' k' t' \<longrightarrow>
           map_sum id fst (get_flowlet_path r' k' paths t') = Inr ?p"
  proof (intro allI impI)
    fix r' k' t'
    assume a: "path_loads r' = path_loads r \<and> stale_or_absent r' k' t'"
    then have "path_load r' = path_load r" by (intro path_load_cong) simp
    then show "map_sum id fst (get_flowlet_path r' k' paths t') = Inr ?p"
      using a paths by (simp add: get_flowlet_path_new new_flowlet_nonempty)
  qed
  from res i le det show ?thesis by blast
qed

theorem new_flowlet_selection_witness:
  "(let r = (FlowletRouter_init (1/20))\<lparr>flowlet_table := [(''a'', ''b'', 1) \<mapsto> (0, 7)],
                                          path_loads := [3 \<mapsto> 5, 4 \<mapsto> 2, 6 \<mapsto> 2]\<rparr>
    in stale_or_absent r (''a'', ''b'', 1) 1 \<and> [3, 6, 4] \<noteq> ([] :: nat list)
     \<and> (\<exists>p i. get_flowlet_path r (''a'', ''b'', 1) [3, 6, 4] 1
                 = Inr (p, r\<lparr>flowlet_table := (flowlet_table r)((''a'', ''b'', 1) \<mapsto> (1, p))\<rparr>)
          \<and> i < length [3, 6, 4 :: nat] \<and> [3, 6, 4] ! i = p
          \<and> (\<forall>q \<in> set [3, 6, 4]. path_load r p \<le> path_load r q)
          \<and> (\<forall>j < i. path_load r p < path_load r ([3, 6, 4] ! j))
          \<and> (\<forall>r' k' t'. path_loads r' = path_loads r \<and> stale_or_absent r' k' t' \<longrightarrow>
                map_sum id fst (get_flowlet_path r' k' [3, 6, 4] t') = Inr p)))"
proof -
  let ?r = "(FlowletRouter_init (1/20))\<lparr>flowlet_table := [(''a'', ''b'', 1) \<mapsto> (0, 7)],
                                          path_loads := [3 \<mapsto> 5, 4 \<mapsto> 2, 6 \<mapsto> 2]\<rparr>"
  have h1: "stale_or_absent ?r (''a'', ''b'', 1) 1"
    by (simp add: stale_or_absent_def FlowletRouter_init_def)
  have h2: "[3, 6, 4] \<noteq> ([] :: nat list)" by simp
  show ?thesis
    unfolding Let_def using h1 h2 new_flowlet_selection [OF h1 h2] by (intro conjI) assumption+
qed

theorem new_flowlet_tiebreak_counterexample:
  "map_sum id fst (get_flowlet_path (FlowletRouter_init (1/20)) (''a'', ''b'', 1) [2, 1] 0) = Inr 2
   \<and> path_load (FlowletRouter_init (1/20)) 1 = path_load (FlowletRouter_init (1/20)) 2
   \<and> (1::nat) \<in> set [2, 1] \<and> (1::nat) < 2"
  by (simp add: FlowletRouter_init_def get_flowlet_path_def new_flowlet_def py_min_key_def path_load_def)

text \<open>
  Claim C10 (implicit precondition on \<open>available_paths\<close>). With an empty list the call
  still returns the stored path when the key's entry is fresher than the timeout, and raises
  \<open>ValueError\<close> (min over an empty sequence) on the new-flowlet branch. With a non-empty
  list the call never raises, and its result is an element of \<open>available_paths\<close> or the
  path stored for the key.
\<close>

theorem available_paths_precondition:
  "(flowlet_table r k = Some (t0, p0) \<and> t - t0 < flowlet_timeout r \<longrightarrow>
      get_flowlet_path r k [] t
        = Inr (p0, r\<lparr>flowlet_table := (flowlet_table r)(k \<mapsto> (t, p0))\<rparr>))
   \<and> (stale_or_absent r k t \<longrightarrow> get_flowlet_path r k [] t = Inl ValueError)
   \<and> (paths \<noteq> [] \<longrightarrow>
        (\<exists>p r'. get_flowlet_path r k paths t = Inr (p, r')
            \<and> (p \<in> set paths \<or> (\<exists>t1. flowlet_table r k = Some (t1, p)))))"
proof (intro conjI impI)
  assume "flowlet_table r k = Some (t0, p0) \<and> t - t0 < flowlet_timeout r"
  then show "get_flowlet_path r k [] t
        = Inr (p0, r\<lparr>flowlet_table := (flowlet_table r)(k \<mapsto> (t, p0))\<rparr>)"
    by (simp add: get_flowlet_path_fresh)
next
  assume "stale_or_absent r k t"
  then show "get_flowlet_path r k [] t = Inl ValueError"
    by (simp add: get_flowlet_path_new new_flowlet_def py_min_key_def)
next
  assume ne: "paths \<noteq> []"
  show "\<exists>p r'. get_flowlet_path r k paths t = Inr (p, r')
            \<and> (p \<in> set paths \<or> (\<exists>t1. flowlet_table r k = Some (t1, p)))"
  proof (cases "stale_or_absent r k t")
    case True
    have "min_by (path_load r) (hd paths) (tl paths) \<in> set (hd paths # tl paths)"
      by (rule min_by_mem)
    then have "min_by (path_load r) (hd paths) (tl paths) \<in> set paths" using ne by simp
    then show ?thesis using True ne by (simp add: get_flowlet_path_new new_flowlet_nonempty)
  next
    case False
    then obtain t1 p1 where "flowlet_table r k = Some (t1, p1)" "t - t1 < flowlet_timeout r"
      by (auto simp: stale_or_absent_def split: option.splits)
    then show ?thesis by (simp add: get_flowlet_path_fresh)
  qed
qed

theorem available_paths_precondition_witness:
  "(let r = (FlowletRouter_init (1/20))\<lparr>flowlet_table := [(''a'', ''b'', 1) \<mapsto> (0, 7)]\<rparr>
    in flowlet_table r (''a'', ''b'', 1) = Some (0, 7) \<and> 1/100 - 0 < flowlet_timeout r
     \<and> get_flowlet_path r (''a'', ''b'', 1) [] (1/100)
         = Inr (7, r\<lparr>flowlet_table := [(''a'', ''b'', 1) \<mapsto> (1/100, 7)]\<rparr>)
     \<and> stale_or_absent r (''a'', ''b'', 1) 1
     \<and> get_flowlet_path r (''a'', ''b'', 1) [] 1 = Inl ValueError
     \<and> [3] \<noteq> ([] :: nat list)
     \<and> (\<exists>p r'. get_flowlet_path r (''a'', ''b'', 1) [3] 1 = Inr (p, r')
            \<and> (p \<in> set [3] \<or> (\<exists>t1. flowlet_table r (''a'', ''b'', 1) = Some (t1, p)))))"
proof -
  let ?r = "(FlowletRouter_init (1/20))\<lparr>flowlet_table := [(''a'', ''b'', 1) \<mapsto> (0, 7)]\<rparr>"
  let ?k = "(''a'', ''b'', 1::nat)"
  have h1: "flowlet_table ?r ?k = Some (0, 7) \<and> 1/100 - 0 < flowlet_timeout ?r"
    by (simp add: FlowletRouter_init_def)
  have h2: "stale_or_absent ?r ?k 1" by (simp add: stale_or_absent_def FlowletRouter_init_def)
  have h3: "[3] \<noteq> ([] :: nat list)" by simp
  have a: "get_flowlet_path ?r ?k [] (1/100)
         = Inr (7, ?r\<lparr>flowlet_table := (flowlet_table ?r)(?k \<mapsto> (1/100, 7))\<rparr>)"
    using available_paths_precondition [of ?r ?k 0 7 "1/100" "[3]"] h1 by blast
  have b: "get_flowlet_path ?r ?k [] 1 = Inl ValueError"
    using available_paths_precondition [of ?r ?k 0 7 1 "[3]"] h2 by blast
  have c: "\<exists>p r'. get_flowlet_path ?r ?k [3] 1 = Inr (p, r')
            \<and> (p \<in> set [3] \<or> (\<exists>t1. flowlet_table ?r ?k = Some (t1, p)))"
    using available_paths_precondition [of ?r ?k 0 7 1 "[3]"] h3 by blast
  from a have a': "get_flowlet_path ?r ?k [] (1/100)
         = Inr (7, ?r\<lparr>flowlet_table := [?k \<mapsto> (1/100, 7)]\<rparr>)"
    by (simp add: FlowletRouter_init_def)
  show ?thesis unfolding Let_def using h1 h2 h3 a' b c by (intro conjI) (erule conjunct1, erule conjunct2, assumption+)
qed

section \<open>Properties of CongestionAwareRouter\<close>

lemma total_congestion_sum:
  "total_congestion c tot links = tot + sum_list (map (link_util c) links)"
  by (induction c tot links rule: total_congestion.induct) simp_all

lemma min_by_cong:
  "(\<And>y. y \<in> set (b # xs) \<Longrightarrow> f y = g y) \<Longrightarrow> min_by f b xs = min_by g b xs"
proof (induction xs arbitrary: b)
  case Nil
  show ?case by simp
next
  case (Cons x xs)
  have fg: "f x = g x" "f b = g b" using Cons.prems by simp_all
  have "min_by f (if f x < f b then x else b) xs = min_by g (if f x < f b then x else b) xs"
    by (rule Cons.IH) (use Cons.prems in auto)
  then show ?case using fg by simp
qed

lemma min_by_append: "min_by f b (xs @ ys) = min_by f (min_by f b xs) ys"
  by (induction xs arbitrary: b) simp_all

lemma keys_dict_set:
  "map fst (dict_set d k v) = (if k \<in> fst ` set d then map fst d else map fst d @ [k])"
  by (induction d k v rule: dict_set.induct) auto

lemma map_of_dict_set: "map_of (dict_set d k v) = (map_of d)(k \<mapsto> v)"
  by (induction d k v rule: dict_set.induct) auto

text \<open>
  Filling the dict from a list and then taking the minimum over its keys gives the minimum
  over the list: a repeated path is not inserted again, and it could not have replaced the
  running best either.
\<close>

lemma fill_path_scores_keys:
  assumes "\<And>q. q \<in> fst ` set d \<Longrightarrow> map_of d q = Some (sc q)"
    and "d = (b, v) # d'"
    and "\<And>p. get_path_score c p (path_links_of plm p) = sc p"
  shows "\<exists>ks. map fst (fill_path_scores c plm d ps) = b # ks
           \<and> (\<forall>q \<in> set (b # ks). map_of (fill_path_scores c plm d ps) q = Some (sc q))
           \<and> min_by sc b ks = min_by sc (min_by sc b (map fst d')) ps"
  using assms(1,2)
proof (induction ps arbitrary: d d' v)
  case Nil
  have "\<forall>q \<in> set (b # map fst d'). map_of d q = Some (sc q)"
  proof
    fix q assume "q \<in> set (b # map fst d')"
    then have "q \<in> fst ` set d" using Nil(2) by auto
    then show "map_of d q = Some (sc q)" by (rule Nil(1))
  qed
  then have inv: "\<forall>q \<in> set (b # map fst d'). map_of (fill_path_scores c plm d []) q = Some (sc q)"
    by simp
  have keys: "map fst (fill_path_scores c plm d []) = b # map fst d'" using Nil(2) by simp
  have m: "min_by sc b (map fst d') = min_by sc (min_by sc b (map fst d')) []" by simp
  show ?case by (rule exI [of _ "map fst d'"]) (intro conjI keys inv m)
next
  case (Cons p ps)
  let ?d = "dict_set d p (sc p)"
  have step: "fill_path_scores c plm d (p # ps) = fill_path_scores c plm ?d ps"
    by (simp add: assms(3))
  obtain v2 d2 where d2: "?d = (b, v2) # d2"
    using Cons.prems(2) by (cases "b = p") auto
  have inv: "\<And>q. q \<in> fst ` set ?d \<Longrightarrow> map_of ?d q = Some (sc q)"
  proof -
    fix q assume "q \<in> fst ` set ?d"
    then have "q \<in> set (map fst ?d)" by simp
    then have "q = p \<or> q \<in> fst ` set d" by (auto simp: keys_dict_set split: if_splits)
    then show "map_of ?d q = Some (sc q)" using Cons.prems(1) by (auto simp: map_of_dict_set)
  qed
  have "\<exists>ks. map fst (fill_path_scores c plm ?d ps) = b # ks
           \<and> (\<forall>q \<in> set (b # ks). map_of (fill_path_scores c plm ?d ps) q = Some (sc q))
           \<and> min_by sc b ks = min_by sc (min_by sc b (map fst d2)) ps"
  proof (rule Cons.IH)
    fix q assume "q \<in> fst ` set ?d"
    then show "map_of ?d q = Some (sc q)" by (rule inv)
  next
    show "?d = (b, v2) # d2" by (rule d2)
  qed
  then obtain ks where ks:
    "map fst (fill_path_scores c plm ?d ps) = b # ks"
    "\<forall>q \<in> set (b # ks). map_of (fill_path_scores c plm ?d ps) q = Some (sc q)"
    "min_by sc b ks = min_by sc (min_by sc b (map fst d2)) ps"
    by (elim exE conjE) (rule that, assumption+)
  have keys: "b # map fst d2 = (if p \<in> fst ` set d then map fst d else map fst d @ [p])"
    using keys_dict_set [of d p "sc p"] d2 by simp
  have "min_by sc (min_by sc b (map fst d2)) ps = min_by sc (min_by sc b (map fst d')) (p # ps)"
  proof (cases "p \<in> fst ` set d")
    case True
    then have eq: "map fst d2 = map fst d'" using keys Cons.prems(2) by simp
    from True have "p \<in> set (b # map fst d')" using Cons.prems(2) by auto
    then have "sc (min_by sc b (map fst d')) \<le> sc p" by (rule min_by_le)
    then have "\<not> sc p < sc (min_by sc b (map fst d'))" by simp
    then show ?thesis using eq by simp
  next
    case False
    then have "map fst d2 = map fst d' @ [p]" using keys Cons.prems(2) by simp
    then show ?thesis by (simp add: min_by_append)
  qed
  with ks show ?case unfolding step by auto
qed

lemma select_path_min_by:
  "select_path c (x # xs) plm
     = Inr (min_by (\<lambda>p. get_path_score c p (path_links_of plm p)) x xs)"
proof -
  let ?sc = "\<lambda>p. get_path_score c p (path_links_of plm p)"
  let ?d = "[(x, ?sc x)]"
  let ?scores = "fill_path_scores c plm [] (x # xs)"
  have s: "?scores = fill_path_scores c plm ?d xs" by simp
  have inv0: "\<And>q. q \<in> fst ` set ?d \<Longrightarrow> map_of ?d q = Some (?sc q)" by simp
  have sc: "\<And>p. get_path_score c p (path_links_of plm p) = ?sc p" by simp
  note k = fill_path_scores_keys [of ?d ?sc x "?sc x" "[]" c plm xs, OF inv0 refl sc]
  from k obtain ks where ks: "map fst ?scores = x # ks"
    "\<forall>q \<in> set (x # ks). map_of ?scores q = Some (?sc q)"
    "min_by ?sc x ks = min_by ?sc x xs" unfolding s by auto
  have "min_by (\<lambda>p. case map_of ?scores p of Some s \<Rightarrow> s | None \<Rightarrow> 0) x ks = min_by ?sc x ks"
    by (rule min_by_cong) (use ks(2) in auto)
  then show ?thesis
    unfolding select_path_def Let_def py_min_key_def ks(1) using ks(3) by simp
qed

text \<open>
  Claim C3 (congestion scoring). \<open>get_path_score\<close> is 0 for an empty link list and otherwise
  the arithmetic mean, over the path's links, of the utilization stored in \<open>link_stats\<close>,
  where a link without a stored reading counts as 0. \<open>select_path\<close> over a non-empty
  \<open>available_paths\<close> returns a candidate whose score, computed on its links in
  \<open>path_links_map\<close> (no links for a path that is not a key), is minimal, and the first such
  in \<open>available_paths\<close>: every candidate listed before it has a strictly larger score.
\<close>

theorem congestion_scoring:
  "get_path_score c pid [] = 0
   \<and> (links \<noteq> [] \<longrightarrow>
        get_path_score c pid links
          = sum_list (map (\<lambda>l. case link_stats c l of None \<Rightarrow> 0 | Some stats \<Rightarrow> util stats) links)
              / real (length links))
   \<and> (paths \<noteq> [] \<longrightarrow>
        (\<exists>p i. select_path c paths plm = Inr p \<and> i < length paths \<and> paths ! i = p
           \<and> (\<forall>q \<in> set paths.
                 get_path_score c p (case plm p of None \<Rightarrow> [] | Some ls \<Rightarrow> ls)
                   \<le> get_path_score c q (case plm q of None \<Rightarrow> [] | Some ls \<Rightarrow> ls))
           \<and> (\<forall>j < i.
                 get_path_score c p (case plm p of None \<Rightarrow> [] | Some ls \<Rightarrow> ls)
                   < get_path_score c (paths ! j)
                       (case plm (paths ! j) of None \<Rightarrow> [] | Some ls \<Rightarrow> ls))))"
proof (intro conjI impI)
  show "get_path_score c pid [] = 0" by (simp add: get_path_score_def)
next
  assume "links \<noteq> []"
  moreover have "link_util c = (\<lambda>l. case link_stats c l of None \<Rightarrow> 0 | Some stats \<Rightarrow> util stats)"
    by (rule ext) (simp add: link_util_def)
  ultimately show "get_path_score c pid links
          = sum_list (map (\<lambda>l. case link_stats c l of None \<Rightarrow> 0 | Some stats \<Rightarrow> util stats) links)
              / real (length links)"
    by (simp add: get_path_score_def total_congestion_sum)
next
  let ?sc = "\<lambda>p. get_path_score c p (case plm p of None \<Rightarrow> [] | Some ls \<Rightarrow> ls)"
  have sc: "(\<lambda>p. get_path_score c p (path_links_of plm p)) = ?sc"
    by (rule ext) (simp add: path_links_of_def)
  assume "paths \<noteq> []"
  then obtain x xs where paths: "paths = x # xs" by (cases paths) auto
  let ?p = "min_by ?sc x xs"
  have res: "select_path c paths plm = Inr ?p"
    unfolding paths select_path_min_by sc ..
  obtain i where i: "i < length paths" "paths ! i = ?p" "\<forall>j < i. ?sc ?p < ?sc (paths ! j)"
    using min_by_first [of x xs ?sc] paths by blast
  have le: "\<forall>q \<in> set paths. ?sc ?p \<le> ?sc q"
    using min_by_le [of _ x xs ?sc] paths by blast
  from res i le show "\<exists>p i. select_path c paths plm = Inr p \<and> i < length paths \<and> paths ! i = p
           \<and> (\<forall>q \<in> set paths. ?sc p \<le> ?sc q) \<and> (\<forall>j < i. ?sc p < ?sc (paths ! j))"
    by blast
qed

text \<open>
  On a router with readings 0.8 and 0.2 for two ports of \<open>leaf1\<close>: the path over the first
  port and an unmeasured link scores 0.4, and of the candidates 1, 3, 2, 3 with scores 0.4,
  0.2, 0.1, 0.2 the one chosen is path 2.
\<close>

theorem congestion_scoring_witness:
  "(let c = (CongestionAwareRouter_init (1/10) (7/10))
              \<lparr>link_stats := [(''leaf1'', 5) \<mapsto> \<lparr>util = 8/10, queue = 0, bytes_tx = 0, bytes_rx = 0\<rparr>,
                              (''leaf1'', 6) \<mapsto> \<lparr>util = 2/10, queue = 0, bytes_tx = 0, bytes_rx = 0\<rparr>]\<rparr>;
        plm = [1 \<mapsto> [(''leaf1'', 5), (''spine1'', 1)], 2 \<mapsto> [(''leaf1'', 6), (''spine2'', 1)],
               3 \<mapsto> [(''leaf1'', 6)]]
    in [(''leaf1'', 5), (''spine1'', 1)] \<noteq> ([] :: link list)
     \<and> get_path_score c 1 [(''leaf1'', 5), (''spine1'', 1)] = 4/10
     \<and> [1, 3, 2, 3] \<noteq> ([] :: nat list)
     \<and> select_path c [1, 3, 2, 3] plm = Inr 2)"
proof -
  let ?c = "(CongestionAwareRouter_init (1/10) (7/10))
              \<lparr>link_stats := [(''leaf1'', 5) \<mapsto> \<lparr>util = 8/10, queue = 0, bytes_tx = 0, bytes_rx = 0\<rparr>,
                              (''leaf1'', 6) \<mapsto> \<lparr>util = 2/10, queue = 0, bytes_tx = 0, bytes_rx = 0\<rparr>]\<rparr>"
  let ?plm = "[1 \<mapsto> [(''leaf1'', 5), (''spine1'', 1)], 2 \<mapsto> [(''leaf1'', 6), (''spine2'', 1)],
               3 \<mapsto> [(''leaf1'', 6)]] :: path_id \<rightharpoonup> link list"
  let ?l1 = "[(''leaf1'', 5), (''spine1'', 1)] :: link list"
  let ?l2 = "[(''leaf1'', 6), (''spine2'', 1)] :: link list"
  let ?l3 = "[(''leaf1'', 6)] :: link list"
  let ?sc = "\<lambda>p. get_path_score ?c p (case ?plm p of None \<Rightarrow> [] | Some ls \<Rightarrow> ls)"
  have h1: "?l1 \<noteq> []" and h2: "?l2 \<noteq> []" and h3: "?l3 \<noteq> []" by simp_all
  have h4: "[1, 3, 2, 3] \<noteq> ([] :: nat list)" by simp
  have s1: "get_path_score ?c 1 ?l1 = 4/10"
    using congestion_scoring [of ?c 1 ?l1 "[1, 3, 2, 3]" ?plm] h1
    by (simp add: CongestionAwareRouter_init_def)
  have s2: "get_path_score ?c 2 ?l2 = 1/10"
    using congestion_scoring [of ?c 2 ?l2 "[1, 3, 2, 3]" ?plm] h2
    by (simp add: CongestionAwareRouter_init_def)
  have s3: "get_path_score ?c 3 ?l3 = 2/10"
    using congestion_scoring [of ?c 3 ?l3 "[1, 3, 2, 3]" ?plm] h3
    by (simp add: CongestionAwareRouter_init_def)
  have sc1: "?sc 1 = 4/10" using s1 by simp
  have sc2: "?sc 2 = 1/10" using s2 by simp
  have sc3: "?sc 3 = 2/10" using s3 by simp
  from congestion_scoring [of ?c 1 ?l1 "[1, 3, 2, 3]" ?plm] h4
  obtain p i where sel: "select_path ?c [1, 3, 2, 3] ?plm = Inr p"
    and i: "i < length [1, 3, 2, 3 :: nat]" "[1, 3, 2, 3] ! i = p"
    and le: "\<forall>q \<in> set [1, 3, 2, 3]. ?sc p \<le> ?sc q"
    by blast
  have mem: "p \<in> set [1, 3, 2, 3]" using i by (metis nth_mem)
  have le2: "?sc p \<le> ?sc 2" using le by simp
  have "p = 2"
  proof (rule ccontr)
    assume "p \<noteq> 2"
    then have "p = 1 \<or> p = 3" using mem by auto
    then show False using le2 sc1 sc2 sc3 by auto
  qed
  then have r: "select_path ?c [1, 3, 2, 3] ?plm = Inr 2" using sel by simp
  show ?thesis unfolding Let_def by (intro conjI h1 s1 h4 r)
qed

section \<open>Properties of NetworkMonitor\<close>

lemma has_util_append_same: "has_util (append_util u lid x) lid x"
  by (simp add: has_util_def append_util_def map_of_dict_set)

lemma has_util_append_mono: "has_util u lid x \<Longrightarrow> has_util (append_util u lid' y) lid x"
  by (auto simp: has_util_def append_util_def map_of_dict_set split: option.splits)

lemma util_pct_nonzero:
  "dt \<noteq> 0 \<Longrightarrow> util_pct dt a b = Inr (real_of_int ((b - a) * 8) / dt / 1000000000 * 100)"
  by (simp add: util_pct_def Let_def field_simps)

lemma ports_loop_mono:
  "dt \<noteq> 0 \<Longrightarrow> \<exists>u'. ports_loop dt sw prev cs u = Inr u'
      \<and> (\<forall>lid x. has_util u lid x \<longrightarrow> has_util u' lid x)"
proof (induction cs arbitrary: u)
  case Nil
  show ?case by simp
next
  case (Cons pc cs)
  obtain port cur where pc: "pc = (port, cur)" by (cases pc)
  show ?case
  proof (cases "map_of prev port")
    case None
    then show ?thesis using Cons.IH [OF Cons.prems, of u] pc by simp
  next
    case (Some prv)
    let ?x = "real_of_int ((tx_bytes cur - tx_bytes prv) * 8) / dt / 1000000000 * 100"
    let ?u = "append_util u (link_id sw port) ?x"
    from Cons.IH [OF Cons.prems, of ?u] obtain u' where
      u': "ports_loop dt sw prev cs ?u = Inr u'" "\<forall>lid x. has_util ?u lid x \<longrightarrow> has_util u' lid x"
      by blast
    have "ports_loop dt sw prev (pc # cs) u = Inr u'"
      using Some pc u'(1) Cons.prems by (simp add: util_pct_nonzero)
    moreover have "\<forall>lid x. has_util u lid x \<longrightarrow> has_util u' lid x"
      using u'(2) has_util_append_mono by blast
    ultimately show ?thesis by blast
  qed
qed

lemma ports_loop_has:
  "dt \<noteq> 0 \<Longrightarrow> (port, cur) \<in> set cs \<Longrightarrow> map_of prev port = Some prv \<Longrightarrow>
   \<exists>u'. ports_loop dt sw prev cs u = Inr u'
      \<and> has_util u' (link_id sw port)
           (real_of_int ((tx_bytes cur - tx_bytes prv) * 8) / dt / 1000000000 * 100)"
proof (induction cs arbitrary: u)
  case Nil
  then show ?case by simp
next
  case (Cons pc cs)
  obtain port' cur' where pc: "pc = (port', cur')" by (cases pc)
  let ?v = "real_of_int ((tx_bytes cur - tx_bytes prv) * 8) / dt / 1000000000 * 100"
  show ?case
  proof (cases "pc = (port, cur)")
    case True
    let ?u = "append_util u (link_id sw port) ?v"
    obtain u' where u': "ports_loop dt sw prev cs ?u = Inr u'"
      "\<forall>lid x. has_util ?u lid x \<longrightarrow> has_util u' lid x"
      using ports_loop_mono [OF Cons.prems(1), of sw prev cs ?u] by blast
    have "ports_loop dt sw prev (pc # cs) u = Inr u'"
      using True u'(1) Cons.prems(1,3) by (simp add: util_pct_nonzero)
    moreover have "has_util u' (link_id sw port) ?v"
      using u'(2) has_util_append_same by blast
    ultimately show ?thesis by blast
  next
    case False
    then have mem: "(port, cur) \<in> set cs" using Cons.prems(2) by simp
    show ?thesis
    proof (cases "map_of prev port'")
      case None
      then show ?thesis using Cons.IH [OF Cons.prems(1) mem Cons.prems(3), of u] pc by simp
    next
      case (Some prv')
      let ?x = "real_of_int ((tx_bytes cur' - tx_bytes prv') * 8) / dt / 1000000000 * 100"
      let ?u = "append_util u (link_id sw port') ?x"
      from Cons.IH [OF Cons.prems(1) mem Cons.prems(3), of ?u] obtain u' where
        u': "ports_loop dt sw prev cs ?u = Inr u'" "has_util u' (link_id sw port) ?v"
        by blast
      have "ports_loop dt sw prev (pc # cs) u = Inr u'"
        using Some pc u'(1) Cons.prems(1) by (simp add: util_pct_nonzero)
      with u'(2) show ?thesis by blast
    qed
  qed
qed

lemma switches_loop_mono:
  "dt \<noteq> 0 \<Longrightarrow> \<exists>u'. switches_loop dt prev cs u = Inr u'
      \<and> (\<forall>lid x. has_util u lid x \<longrightarrow> has_util u' lid x)"
proof (induction cs arbitrary: u)
  case Nil
  show ?case by simp
next
  case (Cons sc cs)
  obtain sw cur where sc: "sc = (sw, cur)" by (cases sc)
  show ?case
  proof (cases "map_of prev sw")
    case None
    then show ?thesis using Cons.IH [OF Cons.prems, of u] sc by simp
  next
    case (Some prv)
    obtain u1 where u1: "ports_loop dt sw (ports prv) (ports cur) u = Inr u1"
      "\<forall>lid x. has_util u lid x \<longrightarrow> has_util u1 lid x"
      using ports_loop_mono [OF Cons.prems] by blast
    from Cons.IH [OF Cons.prems, of u1] obtain u' where
      u': "switches_loop dt prev cs u1 = Inr u'" "\<forall>lid x. has_util u1 lid x \<longrightarrow> has_util u' lid x"
      by blast
    have "switches_loop dt prev (sc # cs) u = Inr u'" using Some sc u1(1) u'(1) by simp
    moreover have "\<forall>lid x. has_util u lid x \<longrightarrow> has_util u' lid x" using u1(2) u'(2) by blast
    ultimately show ?thesis by blast
  qed
qed

lemma switches_loop_has:
  "dt \<noteq> 0 \<Longrightarrow> (sw, cur) \<in> set cs \<Longrightarrow> map_of prev sw = Some prv \<Longrightarrow>
   (port, cp) \<in> set (ports cur) \<Longrightarrow> map_of (ports prv) port = Some pp \<Longrightarrow>
   \<exists>u'. switches_loop dt prev cs u = Inr u'
      \<and> has_util u' (link_id sw port)
           (real_of_int ((tx_bytes cp - tx_bytes pp) * 8) / dt / 1000000000 * 100)"
proof (induction cs arbitrary: u)
  case Nil
  then show ?case by simp
next
  case (Cons sc cs)
  obtain sw' cur' where sc: "sc = (sw', cur')" by (cases sc)
  let ?v = "real_of_int ((tx_bytes cp - tx_bytes pp) * 8) / dt / 1000000000 * 100"
  show ?case
  proof (cases "sc = (sw, cur)")
    case True
    obtain u1 where u1: "ports_loop dt sw (ports prv) (ports cur) u = Inr u1"
      "has_util u1 (link_id sw port) ?v"
      using ports_loop_has [OF Cons.prems(1,4,5)] by blast
    obtain u' where u': "switches_loop dt prev cs u1 = Inr u'"
      "\<forall>lid x. has_util u1 lid x \<longrightarrow> has_util u' lid x"
      using switches_loop_mono [OF Cons.prems(1)] by blast
    have "switches_loop dt prev (sc # cs) u = Inr u'"
      using True u1(1) u'(1) Cons.prems(3) by simp
    moreover have "has_util u' (link_id sw port) ?v" using u1(2) u'(2) by blast
    ultimately show ?thesis by blast
  next
    case False
    then have mem: "(sw, cur) \<in> set cs" using Cons.prems(2) by simp
    note ih = Cons.IH [OF Cons.prems(1) mem Cons.prems(3,4,5)]
    show ?thesis
    proof (cases "map_of prev sw'")
      case None
      then show ?thesis using ih [of u] sc by simp
    next
      case (Some prv')
      obtain u1 where u1: "ports_loop dt sw' (ports prv') (ports cur') u = Inr u1"
        using ports_loop_mono [OF Cons.prems(1)] by blast
      from ih [of u1] obtain u' where
        u': "switches_loop dt prev cs u1 = Inr u'" "has_util u' (link_id sw port) ?v"
        by blast
      have "switches_loop dt prev (sc # cs) u = Inr u'" using Some sc u1 u'(1) by simp
      with u'(2) show ?thesis by blast
    qed
  qed
qed

lemma samples_loop_mono:
  "dt \<noteq> 0 \<Longrightarrow> \<exists>u'. samples_loop dt p0 ss u = Inr u'
      \<and> (\<forall>lid x. has_util u lid x \<longrightarrow> has_util u' lid x)"
proof (induction ss arbitrary: p0 u)
  case Nil
  show ?case by simp
next
  case (Cons s ss)
  obtain u1 where u1: "switches_loop dt (switches p0) (switches s) u = Inr u1"
    "\<forall>lid x. has_util u lid x \<longrightarrow> has_util u1 lid x"
    using switches_loop_mono [OF Cons.prems] by blast
  from Cons.IH [OF Cons.prems, of s u1] obtain u' where
    u': "samples_loop dt s ss u1 = Inr u'" "\<forall>lid x. has_util u1 lid x \<longrightarrow> has_util u' lid x"
    by blast
  have "samples_loop dt p0 (s # ss) u = Inr u'" using u1(1) u'(1) by simp
  moreover have "\<forall>lid x. has_util u lid x \<longrightarrow> has_util u' lid x" using u1(2) u'(2) by blast
  ultimately show ?case by blast
qed

lemma samples_loop_has:
  "dt \<noteq> 0 \<Longrightarrow> p0 # ss = pre @ prev # cs # post \<Longrightarrow>
   (sw, cur) \<in> set (switches cs) \<Longrightarrow> map_of (switches prev) sw = Some prv \<Longrightarrow>
   (port, cp) \<in> set (ports cur) \<Longrightarrow> map_of (ports prv) port = Some pp \<Longrightarrow>
   \<exists>u'. samples_loop dt p0 ss u = Inr u'
      \<and> has_util u' (link_id sw port)
           (real_of_int ((tx_bytes cp - tx_bytes pp) * 8) / dt / 1000000000 * 100)"
proof (induction ss arbitrary: p0 u pre)
  case Nil
  then show ?case by (cases pre) auto
next
  case (Cons s ss)
  let ?v = "real_of_int ((tx_bytes cp - tx_bytes pp) * 8) / dt / 1000000000 * 100"
  show ?case
  proof (cases pre)
    case Nil
    then have eq: "p0 = prev" "s = cs" using Cons.prems(2) by simp_all
    obtain u1 where u1: "switches_loop dt (switches prev) (switches cs) u = Inr u1"
      "has_util u1 (link_id sw port) ?v"
      using switches_loop_has [OF Cons.prems(1,3,4,5,6)] by blast
    obtain u' where u': "samples_loop dt s ss u1 = Inr u'"
      "\<forall>lid x. has_util u1 lid x \<longrightarrow> has_util u' lid x"
      using samples_loop_mono [OF Cons.prems(1)] by blast
    have "samples_loop dt p0 (s # ss) u = Inr u'" using eq u1(1) u'(1) by simp
    moreover have "has_util u' (link_id sw port) ?v" using u1(2) u'(2) by blast
    ultimately show ?thesis by blast
  next
    case (Cons a pre')
    then have eq: "s # ss = pre' @ prev # cs # post" using Cons.prems(2) by simp
    obtain u1 where u1: "switches_loop dt (switches p0) (switches s) u = Inr u1"
      using switches_loop_mono [OF Cons.prems(1)] by blast
    from Cons.IH [OF Cons.prems(1) eq Cons.prems(3,4,5,6), of u1] obtain u' where
      u': "samples_loop dt s ss u1 = Inr u'" "has_util u' (link_id sw port) ?v"
      by blast
    have "samples_loop dt p0 (s # ss) u = Inr u'" using u1 u'(1) by simp
    with u'(2) show ?thesis by blast
  qed
qed

text \<open>
  Claim C5 (link-utilization formula), as the code has it. For every link present in two
  consecutive samples, \<open>compute_link_utilization\<close> records for that link the percentage
  \<open>(delta of cumulative tx bytes * 8) / sample_interval / 10^9 * 100\<close>: the elapsed time is the
  configured \<open>sample_interval\<close>, not the difference of the samples' timestamps, and the
  capacity is the constant 1 Gbps for every link. With \<open>sample_interval = 1\<close>, a delta of
  125000000 bytes is 100 percent, and a delta of 125000 bytes is 0.1 percent.
\<close>

theorem link_utilization_formula:
  assumes "sample_interval m \<noteq> 0"
    and "samples m = pre @ prev # cs # post"
    and "map_of (switches cs) sw = Some cur" and "map_of (switches prev) sw = Some prv"
    and "map_of (ports cur) port = Some cp" and "map_of (ports prv) port = Some pp"
  shows "\<exists>u. compute_link_utilization m = Inr u
           \<and> has_util u (link_id sw port)
                (real_of_int ((tx_bytes cp - tx_bytes pp) * 8) / sample_interval m
                   / 1000000000 * 100)"
proof -
  obtain s0 s1 rest where ss: "samples m = s0 # s1 # rest"
    using assms(2) by (cases pre; cases "tl pre") auto
  have c: "compute_link_utilization m = samples_loop (sample_interval m) s0 (s1 # rest) []"
    by (simp add: compute_link_utilization_def ss)
  have eq: "s0 # s1 # rest = pre @ prev # cs # post" using assms(2) ss by simp
  have m1: "(sw, cur) \<in> set (switches cs)" using assms(3) by (rule map_of_SomeD)
  have m2: "(port, cp) \<in> set (ports cur)" using assms(5) by (rule map_of_SomeD)
  show ?thesis
    unfolding c by (rule samples_loop_has [OF assms(1) eq m1 assms(4) m2 assms(6)])
qed

theorem link_utilization_formula_witness:
  "(let p0 = \<lparr>rx_packets = 0, rx_bytes = 0, rx_drops = 0, tx_packets = 0, tx_bytes = 1000,
               tx_drops = 0\<rparr>;
        p1 = \<lparr>rx_packets = 0, rx_bytes = 0, rx_drops = 0, tx_packets = 0, tx_bytes = 125001000,
               tx_drops = 0\<rparr>;
        s0 = \<lparr>timestamp = ''2024-01-01T00:00:00'', switches = [(''leaf1'', \<lparr>ports = [(''1'', p0)]\<rparr>)]\<rparr>;
        s1 = \<lparr>timestamp = ''2024-01-01T00:00:01'', switches = [(''leaf1'', \<lparr>ports = [(''1'', p1)]\<rparr>)]\<rparr>;
        m = \<lparr>sample_interval = 1, samples = [s0, s1]\<rparr>
    in sample_interval m \<noteq> 0 \<and> samples m = [] @ s0 # s1 # []
     \<and> map_of (switches s1) ''leaf1'' = Some \<lparr>ports = [(''1'', p1)]\<rparr>
     \<and> map_of (switches s0) ''leaf1'' = Some \<lparr>ports = [(''1'', p0)]\<rparr>
     \<and> map_of [(''1'', p1)] ''1'' = Some p1 \<and> map_of [(''1'', p0)] ''1'' = Some p0
     \<and> (\<exists>u. compute_link_utilization m = Inr u \<and> has_util u ''leaf1:1'' 100))"
proof -
  let ?p0 = "\<lparr>rx_packets = 0, rx_bytes = 0, rx_drops = 0, tx_packets = 0, tx_bytes = 1000,
               tx_drops = 0\<rparr>"
  let ?p1 = "\<lparr>rx_packets = 0, rx_bytes = 0, rx_drops = 0, tx_packets = 0, tx_bytes = 125001000,
               tx_drops = 0\<rparr>"
  let ?w0 = "\<lparr>ports = [(''1'', ?p0)]\<rparr>"
  let ?w1 = "\<lparr>ports = [(''1'', ?p1)]\<rparr>"
  let ?s0 = "\<lparr>timestamp = ''2024-01-01T00:00:00'', switches = [(''leaf1'', ?w0)]\<rparr>"
  let ?s1 = "\<lparr>timestamp = ''2024-01-01T00:00:01'', switches = [(''leaf1'', ?w1)]\<rparr>"
  let ?m = "\<lparr>sample_interval = 1, samples = [?s0, ?s1]\<rparr>"
  have h1: "sample_interval ?m \<noteq> 0" by simp
  have h2: "samples ?m = [] @ ?s0 # ?s1 # []" by simp
  have h3: "map_of (switches ?s1) ''leaf1'' = Some ?w1" by simp
  have h4: "map_of (switches ?s0) ''leaf1'' = Some ?w0" by simp
  have h5: "map_of (ports ?w1) ''1'' = Some ?p1" by simp
  have h6: "map_of (ports ?w0) ''1'' = Some ?p0" by simp
  have "\<exists>u. compute_link_utilization ?m = Inr u
           \<and> has_util u (link_id ''leaf1'' ''1'')
                (real_of_int ((tx_bytes ?p1 - tx_bytes ?p0) * 8) / sample_interval ?m
                   / 1000000000 * 100)"
    by (rule link_utilization_formula [OF h1 h2 h3 h4 h5 h6])
  then have r: "\<exists>u. compute_link_utilization ?m = Inr u \<and> has_util u ''leaf1:1'' 100"
    by (simp add: link_id_def)
  have h5': "map_of [(''1'', ?p1)] ''1'' = Some ?p1" by simp
  have h6': "map_of [(''1'', ?p0)] ''1'' = Some ?p0" by simp
  show ?thesis unfolding Let_def by (intro conjI h1 h2 h3 h4 h5' h6' r)
qed

text \<open>
  Two samples one second apart (timestamps and \<open>sample_interval\<close>) with a tx-byte delta of
  125000: the recorded utilization is 0.1 percent, whatever the capacity of the link, not 100.
\<close>

theorem link_utilization_counterexample:
  "compute_link_utilization
     \<lparr>sample_interval = 1,
      samples =
        [\<lparr>timestamp = ''2024-01-01T00:00:00'',
          switches = [(''leaf1'', \<lparr>ports = [(''1'', \<lparr>rx_packets = 0, rx_bytes = 0, rx_drops = 0,
                         tx_packets = 0, tx_bytes = 0, tx_drops = 0\<rparr>)]\<rparr>)]\<rparr>,
         \<lparr>timestamp = ''2024-01-01T00:00:01'',
          switches = [(''leaf1'', \<lparr>ports = [(''1'', \<lparr>rx_packets = 0, rx_bytes = 0, rx_drops = 0,
                         tx_packets = 0, tx_bytes = 125000, tx_drops = 0\<rparr>)]\<rparr>)]\<rparr>]\<rparr>
     = Inr [(''leaf1:1'', [1/10])]
   \<and> (1/10 :: real) \<noteq> 100"
  by (simp add: compute_link_utilization_def util_pct_def append_util_def link_id_def)

section \<open>Properties of FlowCompletionTracker\<close>

lemma p95_index_less: "0 < n \<Longrightarrow> p95_index n < n"
proof -
  assume n: "0 < n"
  have "real n * (95 / 100) < real n" using n by simp
  then have "\<lfloor>real n * (95 / 100)\<rfloor> < int n" by (simp add: floor_less_iff)
  then show ?thesis using n unfolding p95_index_def by arith
qed

lemma p99_index_less: "0 < n \<Longrightarrow> p99_index n < n"
proof -
  assume n: "0 < n"
  have "real n * (99 / 100) < real n" using n by simp
  then have "\<lfloor>real n * (99 / 100)\<rfloor> < int n" by (simp add: floor_less_iff)
  then show ?thesis using n unfolding p99_index_def by arith
qed

lemma get_fct_stats_nonempty:
  assumes "completed_flows \<noteq> []"
  shows "get_fct_stats completed_flows =
     Inr (Some \<lparr>fct_count = length completed_flows,
                fct_mean = sum_list (sort (map fct completed_flows)) / real (length completed_flows),
                fct_median = sort (map fct completed_flows) ! (length completed_flows div 2),
                fct_p95 = sort (map fct completed_flows) ! p95_index (length completed_flows),
                fct_p99 = sort (map fct completed_flows) ! p99_index (length completed_flows),
                fct_max = fold max (tl (sort (map fct completed_flows)))
                            (hd (sort (map fct completed_flows))),
                fct_min = fold min (tl (sort (map fct completed_flows)))
                            (hd (sort (map fct completed_flows)))\<rparr>)"
proof -
  let ?n = "length completed_flows"
  have n: "0 < ?n" using assms by simp
  have i1: "?n div 2 < ?n" using n by simp
  have i2: "p95_index ?n < ?n" using n by (rule p95_index_less)
  have i3: "p99_index ?n < ?n" using n by (rule p99_index_less)
  show ?thesis using assms n i1 i2 i3 by (simp add: get_fct_stats_def py_index_def Let_def)
qed

lemma sort_ten: "sort (map fct (map closed_flow [1, 2, 3, 4, 5, 6, 7, 8, 9, 10]))
                   = [1, 2, 3, 4, 5, 6, 7, 8, 9, 10]"
  by (simp add: closed_flow_def)

text \<open>
  Claim C6 (percentile selection), as the code has it. Over a non-empty list of closed
  records, \<open>get_fct_stats\<close> raises nothing and selects from the sorted completion times by
  index: the median at \<open>n // 2\<close>, p95 at \<open>floor(n * 0.95)\<close>, p99 at \<open>floor(n * 0.99)\<close>, all
  within range. For completion times 1 to 10 this gives p95 = 10 and p99 = 10 (index 9), and
  median = 6, the element at index 5.
\<close>

theorem fct_percentile_selection:
  "(completed_flows \<noteq> [] \<longrightarrow>
      (\<exists>st. get_fct_stats completed_flows = Inr (Some st)
         \<and> fct_median st = sort (map fct completed_flows) ! (length completed_flows div 2)
         \<and> fct_p95 st = sort (map fct completed_flows)
                            ! nat \<lfloor>real (length completed_flows) * (95 / 100)\<rfloor>
         \<and> fct_p99 st = sort (map fct completed_flows)
                            ! nat \<lfloor>real (length completed_flows) * (99 / 100)\<rfloor>
         \<and> length completed_flows div 2 < length completed_flows
         \<and> nat \<lfloor>real (length completed_flows) * (95 / 100)\<rfloor> < length completed_flows
         \<and> nat \<lfloor>real (length completed_flows) * (99 / 100)\<rfloor> < length completed_flows))
   \<and> (\<exists>st. get_fct_stats (map closed_flow [1, 2, 3, 4, 5, 6, 7, 8, 9, 10]) = Inr (Some st)
         \<and> fct_p95 st = 10 \<and> fct_p99 st = 10 \<and> fct_median st = 6)"
proof (intro conjI impI)
  assume ne: "completed_flows \<noteq> []"
  then have n: "0 < length completed_flows" by simp
  show "\<exists>st. get_fct_stats completed_flows = Inr (Some st)
         \<and> fct_median st = sort (map fct completed_flows) ! (length completed_flows div 2)
         \<and> fct_p95 st = sort (map fct completed_flows)
                            ! nat \<lfloor>real (length completed_flows) * (95 / 100)\<rfloor>
         \<and> fct_p99 st = sort (map fct completed_flows)
                            ! nat \<lfloor>real (length completed_flows) * (99 / 100)\<rfloor>
         \<and> length completed_flows div 2 < length completed_flows
         \<and> nat \<lfloor>real (length completed_flows) * (95 / 100)\<rfloor> < length completed_flows
         \<and> nat \<lfloor>real (length completed_flows) * (99 / 100)\<rfloor> < length completed_flows"
    using get_fct_stats_nonempty [OF ne] p95_index_less [OF n] p99_index_less [OF n] n
    by (simp add: p95_index_def p99_index_def)
next
  have ne: "map closed_flow [1, 2, 3, 4, 5, 6, 7, 8, 9, 10] \<noteq> []" by simp
  show "\<exists>st. get_fct_stats (map closed_flow [1, 2, 3, 4, 5, 6, 7, 8, 9, 10]) = Inr (Some st)
         \<and> fct_p95 st = 10 \<and> fct_p99 st = 10 \<and> fct_median st = 6"
    unfolding get_fct_stats_nonempty [OF ne] sort_ten
    by (simp add: p95_index_def p99_index_def)
qed

theorem fct_percentile_selection_witness:
  "[closed_flow 3, closed_flow 1, closed_flow 2] \<noteq> []
   \<and> (\<exists>st. get_fct_stats [closed_flow 3, closed_flow 1, closed_flow 2] = Inr (Some st)
         \<and> fct_median st = 2 \<and> fct_p95 st = 3 \<and> fct_p99 st = 3)"
proof -
  let ?fs = "[closed_flow 3, closed_flow 1, closed_flow 2]"
  have ne: "?fs \<noteq> []" by simp
  have s: "sort (map fct ?fs) = [1, 2, 3]" by (simp add: closed_flow_def)
  have "\<exists>st. get_fct_stats ?fs = Inr (Some st)
         \<and> fct_median st = sort (map fct ?fs) ! (length ?fs div 2)
         \<and> fct_p95 st = sort (map fct ?fs) ! nat \<lfloor>real (length ?fs) * (95 / 100)\<rfloor>
         \<and> fct_p99 st = sort (map fct ?fs) ! nat \<lfloor>real (length ?fs) * (99 / 100)\<rfloor>
         \<and> length ?fs div 2 < length ?fs
         \<and> nat \<lfloor>real (length ?fs) * (95 / 100)\<rfloor> < length ?fs
         \<and> nat \<lfloor>real (length ?fs) * (99 / 100)\<rfloor> < length ?fs"
    using fct_percentile_selection [of ?fs] ne by blast
  then have "\<exists>st. get_fct_stats ?fs = Inr (Some st)
         \<and> fct_median st = 2 \<and> fct_p95 st = 3 \<and> fct_p99 st = 3"
    unfolding s by simp
  with ne show ?thesis by blast
qed

text \<open>For completion times 1 to 10 the median returned is 6, not 5.\<close>

theorem fct_median_counterexample:
  "map_sum id (map_option fct_median)
     (get_fct_stats (map closed_flow [1, 2, 3, 4, 5, 6, 7, 8, 9, 10])) = Inr (Some 6)
   \<and> (6 :: real) \<noteq> 5"
proof -
  have ne: "map closed_flow [1, 2, 3, 4, 5, 6, 7, 8, 9, 10] \<noteq> []" by simp
  show ?thesis unfolding get_fct_stats_nonempty [OF ne] sort_ten by simp
qed

section \<open>Properties of ResultsAnalyzer and ComparisonAnalyzer\<close>

lemma analyze_utilization_results_of:
  "lu \<noteq> [] \<Longrightarrow>
   map_option balance_score (analyze_utilization (results_of lu))
     = Some (if np_mean (map (\<lambda>(lid, stats). util_mean stats) lu) > 0
             then 1 - np_std (map (\<lambda>(lid, stats). util_mean stats) lu)
                        / np_mean (map (\<lambda>(lid, stats). util_mean stats) lu)
             else 0)"
  by (simp add: analyze_utilization_def results_of_def Let_def)

lemma sqrt_100: "sqrt 100 = 10"
proof -
  have "sqrt 100 = sqrt (10 ^ 2)" by simp
  also have "\<dots> = 10" by (simp only: real_sqrt_abs)
  finally show ?thesis .
qed

text \<open>
  Claim C7 (balance score), as the code has it. For a results file with at least one link,
  \<open>analyze_utilization\<close> returns the balance score \<open>1 - stddev / mean\<close> of the per-link mean
  utilizations when their mean is greater than 0, and 0 otherwise: when the mean is 0, and
  also when it is negative. Four links with mean utilization 10 give 1; four links with mean
  utilization 0 give 0.
\<close>

theorem balance_score_formula:
  "(monitoring_entry data = Some mon \<and> link_utilization mon = Some lu \<and> lu \<noteq> [] \<longrightarrow>
      (\<exists>s. analyze_utilization data = Some s
         \<and> balance_score s =
             (if np_mean (map (\<lambda>(lid, stats). util_mean stats) lu) > 0
              then 1 - np_std (map (\<lambda>(lid, stats). util_mean stats) lu)
                         / np_mean (map (\<lambda>(lid, stats). util_mean stats) lu)
              else 0)))
   \<and> map_option balance_score
        (analyze_utilization
           (results_of [(''leaf1:3'', steady_link 10), (''leaf1:4'', steady_link 10),
                        (''leaf2:3'', steady_link 10), (''leaf2:4'', steady_link 10)])) = Some 1
   \<and> map_option balance_score
        (analyze_utilization
           (results_of [(''leaf1:3'', steady_link 0), (''leaf1:4'', steady_link 0),
                        (''leaf2:3'', steady_link 0), (''leaf2:4'', steady_link 0)])) = Some 0"
proof (intro conjI impI)
  assume a: "monitoring_entry data = Some mon \<and> link_utilization mon = Some lu \<and> lu \<noteq> []"
  let ?ms = "map (\<lambda>(lid, stats). util_mean stats) lu"
  let ?s = "\<lparr>avg_mean_util = np_mean ?ms,
             avg_max_util = np_mean (map (\<lambda>(lid, stats). util_max stats) lu),
             std_util = np_std ?ms,
             balance_score = (if np_mean ?ms > 0 then 1 - np_std ?ms / np_mean ?ms else 0),
             num_links = length lu\<rparr>"
  have r: "analyze_utilization data = Some ?s"
    using a by (simp add: analyze_utilization_def Let_def)
  have b: "balance_score ?s = (if np_mean ?ms > 0 then 1 - np_std ?ms / np_mean ?ms else 0)"
    by simp
  show "\<exists>s. analyze_utilization data = Some s
         \<and> balance_score s = (if np_mean ?ms > 0 then 1 - np_std ?ms / np_mean ?ms else 0)"
    using r b by blast
next
  have "np_mean [10, 10, 10, 10] = 10" by (simp add: np_mean_def)
  moreover have "np_std [10, 10, 10, 10] = 0" by (simp add: np_std_def np_mean_def)
  ultimately show
    "map_option balance_score
        (analyze_utilization
           (results_of [(''leaf1:3'', steady_link 10), (''leaf1:4'', steady_link 10),
                        (''leaf2:3'', steady_link 10), (''leaf2:4'', steady_link 10)])) = Some 1"
    by (simp add: analyze_utilization_results_of steady_link_def)
next
  have "np_mean [0, 0, 0, 0] = 0" by (simp add: np_mean_def)
  then show
    "map_option balance_score
        (analyze_utilization
           (results_of [(''leaf1:3'', steady_link 0), (''leaf1:4'', steady_link 0),
                        (''leaf2:3'', steady_link 0), (''leaf2:4'', steady_link 0)])) = Some 0"
    by (simp add: analyze_utilization_results_of steady_link_def)
qed

text \<open>Two links with mean utilizations 10 and 30: mean 20, deviation 10, balance score 1/2.\<close>

theorem balance_score_formula_witness:
  "(let lu = [(''leaf1:3'', \<lparr>util_mean = 10, util_max = 30, util_min = 0, util_samples = 5\<rparr>),
              (''leaf1:4'', \<lparr>util_mean = 30, util_max = 40, util_min = 5, util_samples = 5\<rparr>)];
        mon = \<lparr>link_utilization = Some lu\<rparr>;
        data = \<lparr>monitoring_entry = Some mon\<rparr>
    in monitoring_entry data = Some mon \<and> link_utilization mon = Some lu \<and> lu \<noteq> []
     \<and> (\<exists>s. analyze_utilization data = Some s \<and> balance_score s = 1/2))"
proof -
  let ?lu = "[(''leaf1:3'', \<lparr>util_mean = 10, util_max = 30, util_min = 0, util_samples = 5\<rparr>),
              (''leaf1:4'', \<lparr>util_mean = 30, util_max = 40, util_min = 5, util_samples = 5\<rparr>)]"
  let ?mon = "\<lparr>link_utilization = Some ?lu\<rparr>"
  let ?data = "\<lparr>monitoring_entry = Some ?mon\<rparr>"
  let ?ms = "map (\<lambda>(lid, stats). util_mean stats) ?lu"
  have m: "np_mean ?ms = 20" by (simp add: np_mean_def)
  have sd: "np_std ?ms = 10" by (simp add: np_std_def np_mean_def sqrt_100)
  have h: "monitoring_entry ?data = Some ?mon \<and> link_utilization ?mon = Some ?lu \<and> ?lu \<noteq> []"
    by simp
  have "\<exists>s. analyze_utilization ?data = Some s
         \<and> balance_score s = (if np_mean ?ms > 0 then 1 - np_std ?ms / np_mean ?ms else 0)"
    using balance_score_formula [of ?data ?mon ?lu] h by blast
  then have "\<exists>s. analyze_utilization ?data = Some s \<and> balance_score s = 1/2"
    unfolding m sd by simp
  with h show ?thesis unfolding Let_def by blast
qed

text \<open>
  Two links with mean utilization -10, as a counter reset between two samples produces: the
  mean is -10, not 0, and \<open>1 - stddev / mean\<close> is 1, but the balance score returned is 0.
\<close>

theorem balance_score_counterexample:
  "map_option balance_score
     (analyze_utilization
        (results_of [(''leaf1:3'', steady_link (- 10)), (''leaf1:4'', steady_link (- 10))]))
     = Some 0
   \<and> np_mean [- 10, - 10] = - 10
   \<and> 1 - np_std [- 10, - 10] / np_mean [- 10, - 10] = 1"
proof -
  have m: "np_mean [- 10, - 10] = - 10" by (simp add: np_mean_def)
  have sd: "np_std [- 10, - 10] = 0" by (simp add: np_std_def np_mean_def)
  have "map_option balance_score
     (analyze_utilization
        (results_of [(''leaf1:3'', steady_link (- 10)), (''leaf1:4'', steady_link (- 10))]))
     = Some 0"
    using m by (simp add: analyze_utilization_results_of steady_link_def)
  then show ?thesis using m sd by simp
qed

lemma guarded_pct_eq: "guarded_pct a b c = Inr (pct_of (a - b) c)"
  by (simp add: guarded_pct_def py_truediv_def pct_of_def)

text \<open>The entries of the comparison, with the guard resolved.\<close>

lemma compare_throughput_eq:
  "compare_throughput es ad = Inr (compared_throughput es ad)"
  by (simp add: compare_throughput_def compared_throughput_def guarded_pct_eq Let_def
      split: option.splits)

lemma compare_balance_eq:
  "compare_balance es ad = Inr (compared_balance es ad)"
  by (simp add: compare_balance_def compared_balance_def guarded_pct_eq Let_def
      split: option.splits)

lemma compare_drops_eq:
  "compare_drops es ad = Inr (compared_drops es ad)"
  by (simp add: compare_drops_def compared_drops_def guarded_pct_eq Let_def
      split: option.splits)

lemma compare_tail_latency_eq:
  "compare_tail_latency es ad = Inr (compared_tail_latency es ad)"
  by (simp add: compare_tail_latency_def compared_tail_latency_def guarded_pct_eq Let_def
      split: option.splits)

text \<open>
  Claim C8 (zero-division guard), as the code has it. \<open>compare_metrics\<close> never raises. Each
  percentage is 0 unless the ECMP value is greater than 0, so in particular when it is 0.
  For a positive ECMP value, the throughput and balance improvements are
  \<open>(adaptive - ecmp) / ecmp * 100\<close>, while the drop reduction and the p99 improvement are
  \<open>(ecmp - adaptive) / ecmp * 100\<close>. A baseline of 0 total drops gives a reduction of 0.
\<close>

theorem compare_metrics_guard:
  "\<exists>c. compare_metrics es ad = Inr c
     \<and> (\<forall>e a. throughput es = Some e \<and> throughput ad = Some a \<longrightarrow>
           cmp_throughput c = Some \<lparr>ecmp_value = mean_mbps e, adaptive_value = mean_mbps a,
              change_pct = (if mean_mbps e > 0
                            then (mean_mbps a - mean_mbps e) / mean_mbps e * 100 else 0)\<rparr>)
     \<and> (\<forall>e a. utilization es = Some e \<and> utilization ad = Some a \<longrightarrow>
           cmp_balance c = Some \<lparr>ecmp_value = balance_score e, adaptive_value = balance_score a,
              change_pct = (if balance_score e > 0
                            then (balance_score a - balance_score e) / balance_score e * 100
                            else 0)\<rparr>)
     \<and> (\<forall>e a. drops es = Some e \<and> drops ad = Some a \<longrightarrow>
           cmp_drops c = Some \<lparr>ecmp_value = total_drops e, adaptive_value = total_drops a,
              change_pct = (if total_drops e > 0
                            then (total_drops e - total_drops a) / total_drops e * 100 else 0)\<rparr>)
     \<and> (\<forall>e a x y. throughput es = Some e \<and> throughput ad = Some a
                  \<and> fct_p99_opt e = Some x \<and> fct_p99_opt a = Some y \<longrightarrow>
           cmp_tail_latency c = Some \<lparr>ecmp_value = x, adaptive_value = y,
              change_pct = (if x > 0 then (x - y) / x * 100 else 0)\<rparr>)
     \<and> (\<forall>e a. drops es = Some e \<and> drops ad = Some a \<and> total_drops e = 0 \<longrightarrow>
           map_option change_pct (cmp_drops c) = Some 0)"
proof -
  let ?c = "\<lparr>cmp_throughput = compared_throughput es ad, cmp_balance = compared_balance es ad,
             cmp_drops = compared_drops es ad, cmp_tail_latency = compared_tail_latency es ad\<rparr>"
  have c: "compare_metrics es ad = Inr ?c"
    by (simp add: compare_metrics_def compare_throughput_eq compare_balance_eq compare_drops_eq
        compare_tail_latency_eq)
  have t: "\<forall>e a. throughput es = Some e \<and> throughput ad = Some a \<longrightarrow>
           cmp_throughput ?c = Some \<lparr>ecmp_value = mean_mbps e, adaptive_value = mean_mbps a,
              change_pct = (if mean_mbps e > 0
                            then (mean_mbps a - mean_mbps e) / mean_mbps e * 100 else 0)\<rparr>"
    by (simp add: compared_throughput_def pct_of_def)
  have b: "\<forall>e a. utilization es = Some e \<and> utilization ad = Some a \<longrightarrow>
           cmp_balance ?c = Some \<lparr>ecmp_value = balance_score e, adaptive_value = balance_score a,
              change_pct = (if balance_score e > 0
                            then (balance_score a - balance_score e) / balance_score e * 100
                            else 0)\<rparr>"
    by (simp add: compared_balance_def pct_of_def)
  have d: "\<forall>e a. drops es = Some e \<and> drops ad = Some a \<longrightarrow>
           cmp_drops ?c = Some \<lparr>ecmp_value = total_drops e, adaptive_value = total_drops a,
              change_pct = (if total_drops e > 0
                            then (total_drops e - total_drops a) / total_drops e * 100 else 0)\<rparr>"
    by (simp add: compared_drops_def pct_of_def)
  have l: "\<forall>e a x y. throughput es = Some e \<and> throughput ad = Some a
                  \<and> fct_p99_opt e = Some x \<and> fct_p99_opt a = Some y \<longrightarrow>
           cmp_tail_latency ?c = Some \<lparr>ecmp_value = x, adaptive_value = y,
              change_pct = (if x > 0 then (x - y) / x * 100 else 0)\<rparr>"
    by (simp add: compared_tail_latency_def pct_of_def)
  have z: "\<forall>e a. drops es = Some e \<and> drops ad = Some a \<and> total_drops e = 0 \<longrightarrow>
           map_option change_pct (cmp_drops ?c) = Some 0"
    by (simp add: compared_drops_def pct_of_def)
  show ?thesis by (rule exI [of _ ?c]) (intro conjI c t b d l z)
qed

theorem compare_metrics_guard_witness:
  "(let e = \<lparr>throughput = Some \<lparr>mean_mbps = 8, fct_p99_opt = Some 4\<rparr>,
             utilization = Some \<lparr>avg_mean_util = 10, avg_max_util = 20, std_util = 5,
                                  balance_score = 1/2, num_links = 4\<rparr>,
             drops = Some \<lparr>total_drops = 0, num_congested_links = 0, avg_drops_per_link = 0\<rparr>\<rparr>;
        a = \<lparr>throughput = Some \<lparr>mean_mbps = 10, fct_p99_opt = Some 3\<rparr>,
             utilization = Some \<lparr>avg_mean_util = 10, avg_max_util = 15, std_util = 2,
                                  balance_score = 3/4, num_links = 4\<rparr>,
             drops = Some \<lparr>total_drops = 7, num_congested_links = 1, avg_drops_per_link = 7\<rparr>\<rparr>
    in \<exists>c. compare_metrics e a = Inr c
         \<and> map_option change_pct (cmp_throughput c) = Some 25
         \<and> map_option change_pct (cmp_balance c) = Some 50
         \<and> map_option change_pct (cmp_drops c) = Some 0
         \<and> map_option change_pct (cmp_tail_latency c) = Some 25)"
proof -
  let ?et = "\<lparr>mean_mbps = 8, fct_p99_opt = Some 4\<rparr>"
  let ?eu = "\<lparr>avg_mean_util = 10, avg_max_util = 20, std_util = 5,
                                  balance_score = 1/2, num_links = 4\<rparr>"
  let ?ed = "\<lparr>total_drops = 0, num_congested_links = 0, avg_drops_per_link = 0\<rparr>"
  let ?at = "\<lparr>mean_mbps = 10, fct_p99_opt = Some 3\<rparr>"
  let ?au = "\<lparr>avg_mean_util = 10, avg_max_util = 15, std_util = 2,
                                  balance_score = 3/4, num_links = 4\<rparr>"
  let ?ad = "\<lparr>total_drops = 7, num_congested_links = 1, avg_drops_per_link = 7\<rparr>"
  let ?e = "\<lparr>throughput = Some ?et, utilization = Some ?eu, drops = Some ?ed\<rparr>"
  let ?a = "\<lparr>throughput = Some ?at, utilization = Some ?au, drops = Some ?ad\<rparr>"
  from compare_metrics_guard [of ?e ?a] obtain c where c: "compare_metrics ?e ?a = Inr c"
    and t: "\<forall>e a. throughput ?e = Some e \<and> throughput ?a = Some a \<longrightarrow>
           cmp_throughput c = Some \<lparr>ecmp_value = mean_mbps e, adaptive_value = mean_mbps a,
              change_pct = (if mean_mbps e > 0
                            then (mean_mbps a - mean_mbps e) / mean_mbps e * 100 else 0)\<rparr>"
    and b: "\<forall>e a. utilization ?e = Some e \<and> utilization ?a = Some a \<longrightarrow>
           cmp_balance c = Some \<lparr>ecmp_value = balance_score e, adaptive_value = balance_score a,
              change_pct = (if balance_score e > 0
                            then (balance_score a - balance_score e) / balance_score e * 100
                            else 0)\<rparr>"
    and l: "\<forall>e a x y. throughput ?e = Some e \<and> throughput ?a = Some a
                  \<and> fct_p99_opt e = Some x \<and> fct_p99_opt a = Some y \<longrightarrow>
           cmp_tail_latency c = Some \<lparr>ecmp_value = x, adaptive_value = y,
              change_pct = (if x > 0 then (x - y) / x * 100 else 0)\<rparr>"
    and d: "\<forall>e a. drops ?e = Some e \<and> drops ?a = Some a \<and> total_drops e = 0 \<longrightarrow>
           map_option change_pct (cmp_drops c) = Some 0"
    by blast
  have t': "map_option change_pct (cmp_throughput c) = Some 25" using t by simp
  have b': "map_option change_pct (cmp_balance c) = Some 50" using b by simp
  have d': "map_option change_pct (cmp_drops c) = Some 0" using d by simp
  have l': "map_option change_pct (cmp_tail_latency c) = Some 25" using l by simp
  show ?thesis unfolding Let_def using c t' b' d' l' by blast
qed

text \<open>
  With 10 drops under ECMP and 5 under adaptive routing the reduction is 50, where
  \<open>(new - old) / old * 100\<close> is -50.
\<close>

theorem compare_metrics_counterexample:
  "map_sum id (\<lambda>c. map_option change_pct (cmp_drops c))
     (compare_metrics
        \<lparr>throughput = None, utilization = None,
         drops = Some \<lparr>total_drops = 10, num_congested_links = 2, avg_drops_per_link = 5\<rparr>\<rparr>
        \<lparr>throughput = None, utilization = None,
         drops = Some \<lparr>total_drops = 5, num_congested_links = 1, avg_drops_per_link = 5\<rparr>\<rparr>)
     = Inr (Some 50)
   \<and> ((5 :: real) - 10) / 10 * 100 = - 50 \<and> (50 :: real) \<noteq> - 50"
  by (simp add: compare_metrics_def compare_throughput_def compare_balance_def
      compare_drops_def compare_tail_latency_def guarded_pct_def py_truediv_def)

section \<open>Properties of build\_routing\_table\<close>

declare str_nat.simps [simp del]

subsection \<open>Decimal strings\<close>

lemma index_of_nth: "distinct xs \<Longrightarrow> n < length xs \<Longrightarrow> index_of (xs ! n) xs = Some n"
proof (induction xs arbitrary: n)
  case Nil
  then show ?case by simp
next
  case (Cons x xs)
  show ?case
  proof (cases n)
    case 0
    then show ?thesis by simp
  next
    case (Suc m)
    then have "xs ! m \<in> set xs" using Cons.prems(2) by simp
    then have "x \<noteq> xs ! m" using Cons.prems(1) by auto
    then show ?thesis using Suc Cons by simp
  qed
qed

lemma digit_chars_props: "distinct digit_chars" "length digit_chars = 10"
  by (simp_all add: digit_chars_def)

lemma index_of_digit: "n < 10 \<Longrightarrow> index_of (digit_chars ! n) digit_chars = Some n"
  by (rule index_of_nth) (simp_all add: digit_chars_props)

lemma parse_digits_append:
  "parse_digits acc (xs @ ys)
     = (case parse_digits acc xs of None \<Rightarrow> None | Some a \<Rightarrow> parse_digits a ys)"
  by (induction xs arbitrary: acc) (simp_all split: option.splits)

lemma parse_digits_str_nat: "parse_digits 0 (str_nat n) = Some n"
proof (induction n rule: str_nat.induct)
  case (1 n)
  show ?case
  proof (cases "n < 10")
    case True
    then show ?thesis by (simp add: str_nat.simps [of n] index_of_digit)
  next
    case False
    have "n mod 10 < 10" by simp
    then have d: "index_of (digit_chars ! (n mod 10)) digit_chars = Some (n mod 10)"
      by (rule index_of_digit)
    have "parse_digits 0 (str_nat (n div 10)) = Some (n div 10)" using 1 False by simp
    then show ?thesis using False d by (simp add: str_nat.simps [of n] parse_digits_append)
  qed
qed

lemma str_nat_nonempty: "str_nat n \<noteq> []"
  by (subst str_nat.simps) simp

lemma py_int_str_nat: "py_int (str_nat n) = Inr n"
  by (simp add: py_int_def str_nat_nonempty parse_digits_str_nat)

lemma str_nat_inj: "str_nat a = str_nat b \<Longrightarrow> a = b"
proof -
  assume "str_nat a = str_nat b"
  then have "py_int (str_nat a) = py_int (str_nat b)" by simp
  then show "a = b" by (simp add: py_int_str_nat)
qed

lemma str_nat_digits: "set (str_nat n) \<subseteq> set digit_chars"
proof (induction n rule: str_nat.induct)
  case (1 n)
  have m: "digit_chars ! (n mod 10) \<in> set digit_chars" by (simp add: digit_chars_props)
  show ?case
  proof (cases "n < 10")
    case True
    then have "digit_chars ! n \<in> set digit_chars" by (simp add: digit_chars_props)
    then show ?thesis using True by (simp add: str_nat.simps [of n])
  next
    case False
    then show ?thesis using 1 m by (simp add: str_nat.simps [of n])
  qed
qed

lemma dot_not_in_str_nat: "CHR ''.'' \<notin> set (str_nat n)"
proof -
  have "CHR ''.'' \<notin> set digit_chars" by (simp add: digit_chars_def)
  then show ?thesis using str_nat_digits by blast
qed

lemma split_at_unique:
  "xs @ c # ys = xs' @ c # ys' \<Longrightarrow> c \<notin> set xs \<Longrightarrow> c \<notin> set xs' \<Longrightarrow> xs = xs' \<and> ys = ys'"
proof (induction xs arbitrary: xs')
  case Nil
  then show ?case by (cases xs') auto
next
  case (Cons x xs)
  then show ?case by (cases xs') auto
qed

lemma host_ip_inj: "host_ip a b = host_ip a' b' \<Longrightarrow> a = a' \<and> b = b'"
proof -
  assume "host_ip a b = host_ip a' b'"
  then have "str_nat a @ CHR ''.'' # str_nat b = str_nat a' @ CHR ''.'' # str_nat b'"
    by (simp add: host_ip_def)
  then have "str_nat a = str_nat a' \<and> str_nat b = str_nat b'"
    by (rule split_at_unique) (rule dot_not_in_str_nat)+
  then show ?thesis using str_nat_inj by blast
qed

lemma leaf_name_inj: "leaf_name i = leaf_name j \<Longrightarrow> i = j"
  using str_nat_inj [of "i + 1" "j + 1"] by (simp add: leaf_name_def)

lemma spine_name_inj: "spine_name i = spine_name j \<Longrightarrow> i = j"
  using str_nat_inj [of "i + 1" "j + 1"] by (simp add: spine_name_def)

lemma leaf_name_not_spine: "leaf_name i \<noteq> spine_name j"
  by (simp add: leaf_name_def spine_name_def)

subsection \<open>The table as a dict\<close>

lemma dict_set_new: "k \<notin> fst ` set d \<Longrightarrow> dict_set d k v = d @ [(k, v)]"
  by (induction d k v rule: dict_set.induct) auto

lemma rt_get_append:
  "rt_get (rt_append rt k r) k' = (if k' = k then rt_get rt k @ [r] else rt_get rt k')"
  by (simp add: rt_get_def rt_append_def map_of_dict_set)

lemma rt_get_fold_append:
  "rt_get (fold (\<lambda>x rt. rt_append rt k (f x)) xs rt) k'
     = (if k' = k then rt_get rt k @ map f xs else rt_get rt k')"
  by (induction xs arbitrary: rt) (simp_all add: rt_get_append)

lemma rt_get_local_host_rules:
  "rt_get (local_host_rules leaf leaf_num hosts rt) k
     = (if k = leaf
        then rt_get rt leaf
             @ map (\<lambda>h. \<lparr>dst_ip = host_ip leaf_num (h + 1), out_ports = [h + 1]\<rparr>) [0..<hosts]
        else rt_get rt k)"
  unfolding local_host_rules_def by (rule rt_get_fold_append)

lemma rt_get_remote_fold:
  "rt_get (fold (\<lambda>j rt. if j = i then rt
                        else fold (\<lambda>h rt. rt_append rt leaf (f j h)) hs rt) js rt) k
     = (if k = leaf
        then rt_get rt leaf @ concat (map (\<lambda>j. if j = i then [] else map (f j) hs) js)
        else rt_get rt k)"
  by (induction js arbitrary: rt) (simp_all add: rt_get_fold_append)

lemma rt_get_remote_host_rules:
  "rt_get (remote_host_rules leaf i leaves hosts port_to_spine rt) k
     = (if k = leaf
        then rt_get rt leaf
             @ concat (map (\<lambda>j. if j = i then []
                                 else map (\<lambda>h. \<lparr>dst_ip = host_ip (j + 1) (h + 1),
                                                 out_ports = map snd port_to_spine\<rparr>)
                                        [0..<hosts])
                         [0..<leaves])
        else rt_get rt k)"
  unfolding remote_host_rules_def by (rule rt_get_remote_fold)

lemma rt_get_spine_fold:
  "k \<noteq> spine \<Longrightarrow>
   rt_get (fold (\<lambda>j rt. case g j of None \<Rightarrow> rt
                        | Some port \<Rightarrow> fold (\<lambda>h rt. rt_append rt spine (f j port h)) hs rt) js rt) k
     = rt_get rt k"
  by (induction js arbitrary: rt) (simp_all add: rt_get_fold_append split: option.splits)

lemma rt_get_spine_rules:
  "k \<noteq> spine \<Longrightarrow> rt_get (spine_rules spine leaves hosts port_to_leaf rt) k = rt_get rt k"
  unfolding spine_rules_def by (rule rt_get_spine_fold)

subsection \<open>The loops of build\_routing\_table\<close>

lemma not_isl_Inr: "\<not> isl v \<Longrightarrow> \<exists>y. v = Inr y"
  by (cases v) auto

text \<open>
  With distinct spine peers none of which is a key yet, the loop appends one entry per
  spine-facing interface, in order.
\<close>

lemma leaf_port_to_spine_ok:
  assumes "\<forall>x \<in> set (spine_facing intfs). \<not> isl (port_of leaf x)"
    and "distinct (map peer_node (spine_facing intfs))"
    and "\<forall>x \<in> set (spine_facing intfs). \<forall>p. peer_node x = Some p \<longrightarrow> p \<notin> fst ` set d"
  shows "\<exists>d'. leaf_port_to_spine leaf d intfs = Inr (d @ d')
           \<and> length d' = length (spine_facing intfs)
           \<and> map (Inr \<circ> snd) d' = map (port_of leaf) (spine_facing intfs)"
  using assms
proof (induction intfs arbitrary: d)
  case Nil
  show ?case by (simp add: spine_facing_def)
next
  case (Cons x intfs)
  let ?P = "\<lambda>x. case peer_node x of None \<Rightarrow> False | Some peer \<Rightarrow> py_in ''spine'' peer"
  show ?case
  proof (cases "?P x")
    case False
    then have sf: "spine_facing (x # intfs) = spine_facing intfs"
      by (simp add: spine_facing_def)
    have step: "leaf_port_to_spine leaf d (x # intfs) = leaf_port_to_spine leaf d intfs"
      using False by (cases "peer_node x") simp_all
    show ?thesis unfolding step sf using Cons.IH [of d] Cons.prems unfolding sf by blast
  next
    case True
    then obtain peer where peer: "peer_node x = Some peer" "py_in ''spine'' peer"
      by (cases "peer_node x") simp_all
    have sf: "spine_facing (x # intfs) = x # spine_facing intfs"
      using peer by (simp add: spine_facing_def)
    have "x \<in> set (spine_facing (x # intfs))" using sf by simp
    then have "\<not> isl (port_of leaf x)" using Cons.prems(1) by blast
    then obtain p where p: "port_of leaf x = Inr p" using not_isl_Inr by blast
    have new: "peer \<notin> fst ` set d" using Cons.prems(3) sf peer(1) by simp
    let ?d = "d @ [(peer, p)]"
    have step: "leaf_port_to_spine leaf d (x # intfs) = leaf_port_to_spine leaf ?d intfs"
      using peer p new by (simp add: dict_set_new)
    have a1: "\<forall>y \<in> set (spine_facing intfs). \<not> isl (port_of leaf y)"
      using Cons.prems(1) sf by simp
    have a2: "distinct (map peer_node (spine_facing intfs))"
      using Cons.prems(2) sf by simp
    have a3: "\<forall>y \<in> set (spine_facing intfs). \<forall>q. peer_node y = Some q \<longrightarrow> q \<notin> fst ` set ?d"
    proof (intro ballI allI impI)
      fix y q assume y: "y \<in> set (spine_facing intfs)" and q: "peer_node y = Some q"
      have "q \<notin> fst ` set d" using Cons.prems(3) y q sf by simp
      moreover have "q \<noteq> peer"
      proof
        assume "q = peer"
        then have "peer_node x \<in> set (map peer_node (spine_facing intfs))"
          using y q peer(1) by force
        then show False using Cons.prems(2) sf by simp
      qed
      ultimately show "q \<notin> fst ` set ?d" by auto
    qed
    from Cons.IH [OF a1 a2 a3] obtain d' where d':
      "leaf_port_to_spine leaf ?d intfs = Inr (?d @ d')"
      "length d' = length (spine_facing intfs)"
      "map (Inr \<circ> snd) d' = map (port_of leaf) (spine_facing intfs)" by blast
    have "leaf_port_to_spine leaf d (x # intfs) = Inr (d @ (peer, p) # d')"
      using step d'(1) by simp
    moreover have "length ((peer, p) # d') = length (spine_facing (x # intfs))"
      using d'(2) sf by simp
    moreover have "map (Inr \<circ> snd) ((peer, p) # d') = map (port_of leaf) (spine_facing (x # intfs))"
      using d'(3) sf p by simp
    ultimately show ?thesis by blast
  qed
qed

lemma spine_names_distinct: "distinct (map (Some \<circ> spine_name) [0..<n])"
  by (auto simp: distinct_map inj_on_def dest: spine_name_inj)

subsection \<open>Interface names\<close>

lemma starts_with_append: "starts_with old (old @ r)"
  by (induction old) simp_all

lemma starts_with_set: "starts_with old s \<Longrightarrow> set old \<subseteq> set s"
  by (induction old s rule: starts_with.induct) auto

text \<open>Removing a string that has a character not in \<open>s\<close> leaves \<open>s\<close> as it is.\<close>

lemma py_remove_absent: "c0 \<in> set old \<Longrightarrow> c0 \<notin> set s \<Longrightarrow> py_remove old s = s"
proof (induction s)
  case Nil
  show ?case by simp
next
  case (Cons c cs)
  have "\<not> starts_with old (c # cs)" using starts_with_set Cons.prems by blast
  moreover have "py_remove old cs = cs" using Cons by simp
  ultimately show ?case by simp
qed

lemma py_remove_prefix:
  assumes "c0 \<in> set old" and "c0 \<notin> set r"
  shows "py_remove old (old @ r) = r"
proof -
  obtain a as where old: "old = a # as" using assms(1) by (cases old) auto
  have sw: "starts_with (a # as) (a # (as @ r))" using starts_with_append [of "a # as" r] by simp
  have "py_remove (a # as) (a # (as @ r)) = py_remove (a # as) (drop (length (a # as)) (a # (as @ r)))"
    by (subst py_remove.simps(2)) (simp only: sw if_True simp_thms list.distinct not_False_eq_True)
  also have "\<dots> = py_remove (a # as) r" by simp
  also have "\<dots> = r" using assms old by (simp add: py_remove_absent)
  finally show ?thesis using old by simp
qed

lemma not_digit_not_in_str_nat: "c \<notin> set digit_chars \<Longrightarrow> c \<notin> set (str_nat n)"
  using str_nat_digits by blast

lemma port_of_eth_name: "intf_name x = eth_name sw p \<Longrightarrow> port_of sw x = Inr p"
proof -
  assume n: "intf_name x = eth_name sw p"
  have a: "CHR ''-'' \<in> set (sw @ ''-eth'')" by simp
  have "CHR ''-'' \<notin> set digit_chars" by (simp add: digit_chars_def)
  then have b: "CHR ''-'' \<notin> set (str_nat p)" by (rule not_digit_not_in_str_nat)
  have "py_remove (sw @ ''-eth'') ((sw @ ''-eth'') @ str_nat p) = str_nat p"
    using a b by (rule py_remove_prefix)
  then show ?thesis using n by (simp add: port_of_def eth_name_def py_int_str_nat)
qed

lemma leaf_number: "py_int (py_remove ''leaf'' (''leaf'' @ str_nat k)) = Inr k"
proof -
  have a: "CHR ''l'' \<in> set ''leaf''" by simp
  have "CHR ''l'' \<notin> set digit_chars" by (simp add: digit_chars_def)
  then have b: "CHR ''l'' \<notin> set (str_nat k)" by (rule not_digit_not_in_str_nat)
  have "py_remove ''leaf'' (''leaf'' @ str_nat k) = str_nat k"
    using a b by (rule py_remove_prefix)
  then show ?thesis by (simp only: py_int_str_nat)
qed

lemma eth_name_inj: "eth_name sw p = eth_name sw q \<Longrightarrow> p = q"
  using str_nat_inj by (simp add: eth_name_def)

lemma port_of_names:
  "map intf_name xs = map (eth_name sw) ps \<Longrightarrow> map (port_of sw) xs = map Inr ps"
proof (induction xs arbitrary: ps)
  case Nil
  then show ?case by simp
next
  case (Cons x xs)
  then obtain p ps' where ps: "ps = p # ps'" by (cases ps) auto
  then have "intf_name x = eth_name sw p" "map intf_name xs = map (eth_name sw) ps'"
    using Cons.prems by simp_all
  then show ?case using ps Cons.IH [of ps'] by (simp add: port_of_eth_name)
qed

subsection \<open>One leaf, all leaves\<close>

lemma leaf_ok_facing:
  assumes "leaf_ok net S i ps"
  obtains intfs where "net (leaf_name i) = Some intfs"
    and "length (spine_facing intfs) = S"
    and "distinct (map peer_node (spine_facing intfs))"
    and "set (map peer_node (spine_facing intfs)) = set (map (Some \<circ> spine_name) [0..<S])"
    and "map intf_name (spine_facing intfs) = map (eth_name (leaf_name i)) ps"
    and "distinct ps"
proof -
  from assms obtain intfs where n: "net (leaf_name i) = Some intfs"
    and d: "distinct (map peer_node (spine_facing intfs))"
    and s: "set (map peer_node (spine_facing intfs)) = set (map (Some \<circ> spine_name) [0..<S])"
    and p: "map intf_name (spine_facing intfs) = map (eth_name (leaf_name i)) ps"
    and dp: "distinct ps"
    by (auto simp: leaf_ok_def split: option.splits)
  have "length (map peer_node (spine_facing intfs)) = length (map (Some \<circ> spine_name) [0..<S])"
    by (metis d s spine_names_distinct distinct_card)
  then have len: "length (spine_facing intfs) = S" by simp
  show ?thesis by (rule that [OF n len d s p dp])
qed

lemma leaf_ports_length: "leaf_ok net S i ps \<Longrightarrow> length ps = S"
proof -
  assume "leaf_ok net S i ps"
  then obtain intfs where len: "length (spine_facing intfs) = S"
    and p: "map intf_name (spine_facing intfs) = map (eth_name (leaf_name i)) ps"
    by (rule leaf_ok_facing)
  have "length (map intf_name (spine_facing intfs)) = length (map (eth_name (leaf_name i)) ps)"
    using p by simp
  then show ?thesis using len by simp
qed

text \<open>Every spine is reached through an interface whose port is in the list.\<close>

lemma leaf_ports_cover:
  assumes "leaf_ok net S i ps" and "s < S"
  shows "\<exists>p \<in> set ps. \<exists>intfs. net (leaf_name i) = Some intfs
           \<and> \<lparr>intf_name = eth_name (leaf_name i) p, peer_node = Some (spine_name s)\<rparr> \<in> set intfs"
proof -
  from assms(1) obtain intfs where n: "net (leaf_name i) = Some intfs"
    and st: "set (map peer_node (spine_facing intfs)) = set (map (Some \<circ> spine_name) [0..<S])"
    and p: "map intf_name (spine_facing intfs) = map (eth_name (leaf_name i)) ps"
    by (rule leaf_ok_facing)
  have "Some (spine_name s) \<in> set (map (Some \<circ> spine_name) [0..<S])" using assms(2) by simp
  then have "Some (spine_name s) \<in> set (map peer_node (spine_facing intfs))" using st by simp
  then obtain m where m: "m < length (spine_facing intfs)"
    "peer_node (spine_facing intfs ! m) = Some (spine_name s)"
    by (auto simp: in_set_conv_nth)
  let ?x = "spine_facing intfs ! m"
  have lp: "length ps = length (spine_facing intfs)"
    using arg_cong [OF p, of length] by simp
  have "map intf_name (spine_facing intfs) ! m = map (eth_name (leaf_name i)) ps ! m"
    using p by simp
  then have nm: "intf_name ?x = eth_name (leaf_name i) (ps ! m)" using m(1) lp by simp
  have "?x \<in> set (spine_facing intfs)" using m(1) by simp
  then have xin: "?x \<in> set intfs" by (simp add: spine_facing_def)
  have "?x = \<lparr>intf_name = eth_name (leaf_name i) (ps ! m), peer_node = Some (spine_name s)\<rparr>"
    using nm m(2) by (cases ?x) simp
  then have "\<lparr>intf_name = eth_name (leaf_name i) (ps ! m), peer_node = Some (spine_name s)\<rparr> \<in> set intfs"
    using xin by simp
  moreover have "ps ! m \<in> set ps" using m(1) lp by simp
  ultimately show ?thesis using n by blast
qed

lemma build_leaf_ok:
  assumes "leaf_ok net S i ps"
  shows "\<exists>rt'. build_leaf net L H i rt = Inr rt'
           \<and> rt_get rt' (leaf_name i) = rt_get rt (leaf_name i) @ leaf_rules i L H ps
           \<and> (\<forall>k. k \<noteq> leaf_name i \<longrightarrow> rt_get rt' k = rt_get rt k)"
proof -
  from assms obtain intfs where n: "net (leaf_name i) = Some intfs"
    and d: "distinct (map peer_node (spine_facing intfs))"
    and p: "map intf_name (spine_facing intfs) = map (eth_name (leaf_name i)) ps"
    by (rule leaf_ok_facing)
  have ports: "map (port_of (leaf_name i)) (spine_facing intfs) = map Inr ps"
    using p by (rule port_of_names)
  have ok: "\<forall>x \<in> set (spine_facing intfs). \<not> isl (port_of (leaf_name i) x)"
  proof
    fix x assume "x \<in> set (spine_facing intfs)"
    then have "port_of (leaf_name i) x \<in> set (map (port_of (leaf_name i)) (spine_facing intfs))"
      by simp
    then have "port_of (leaf_name i) x \<in> set (map Inr ps)" using ports by simp
    then show "\<not> isl (port_of (leaf_name i) x)" by auto
  qed
  have "\<exists>d'. leaf_port_to_spine (leaf_name i) [] intfs = Inr ([] @ d')
           \<and> length d' = length (spine_facing intfs)
           \<and> map (Inr \<circ> snd) d' = map (port_of (leaf_name i)) (spine_facing intfs)"
    by (rule leaf_port_to_spine_ok [OF ok d]) simp
  then obtain d' where d': "leaf_port_to_spine (leaf_name i) [] intfs = Inr d'"
    "map (Inr \<circ> snd) d' = map (port_of (leaf_name i)) (spine_facing intfs)"
    by auto
  have "map Inr (map snd d') = (map Inr ps :: (py_error + nat) list)"
    using d'(2) ports by simp
  then have sp: "map snd d' = ps" by (rule map_injective) (rule inj_Inr)
  let ?rt = "remote_host_rules (leaf_name i) i L H d'
               (local_host_rules (leaf_name i) (i + 1) H rt)"
  have b: "build_leaf net L H i rt = Inr ?rt"
    by (simp add: build_leaf_def Let_def n d'(1))
  have "rt_get ?rt (leaf_name i) = rt_get rt (leaf_name i) @ leaf_rules i L H (map snd d')"
    by (simp add: rt_get_remote_host_rules rt_get_local_host_rules leaf_rules_def)
  then have g: "rt_get ?rt (leaf_name i) = rt_get rt (leaf_name i) @ leaf_rules i L H ps"
    by (simp only: sp)
  have o: "\<forall>k. k \<noteq> leaf_name i \<longrightarrow> rt_get ?rt k = rt_get rt k"
    by (simp add: rt_get_remote_host_rules rt_get_local_host_rules)
  from b g o show ?thesis by blast
qed

lemma build_leaves_ok:
  assumes "\<forall>i \<in> set idxs. leaf_ok net S i (lp i)" and "distinct idxs"
  shows "\<exists>rt'. build_leaves net L H idxs rt = Inr rt'
           \<and> (\<forall>i \<in> set idxs.
                  rt_get rt' (leaf_name i) = rt_get rt (leaf_name i) @ leaf_rules i L H (lp i))
           \<and> (\<forall>k. k \<notin> leaf_name ` set idxs \<longrightarrow> rt_get rt' k = rt_get rt k)"
  using assms
proof (induction idxs arbitrary: rt)
  case Nil
  show ?case by simp
next
  case (Cons i idxs)
  have ok: "leaf_ok net S i (lp i)" using Cons.prems(1) by simp
  from build_leaf_ok [OF ok, of L H rt] obtain rt1 where rt1:
    "build_leaf net L H i rt = Inr rt1"
    "rt_get rt1 (leaf_name i) = rt_get rt (leaf_name i) @ leaf_rules i L H (lp i)"
    "\<forall>k. k \<noteq> leaf_name i \<longrightarrow> rt_get rt1 k = rt_get rt k" by blast
  have a1: "\<forall>j \<in> set idxs. leaf_ok net S j (lp j)" using Cons.prems(1) by simp
  have a2: "distinct idxs" using Cons.prems(2) by simp
  from Cons.IH [OF a1 a2, of rt1] obtain rt' where rt':
    "build_leaves net L H idxs rt1 = Inr rt'"
    "\<forall>j \<in> set idxs.
        rt_get rt' (leaf_name j) = rt_get rt1 (leaf_name j) @ leaf_rules j L H (lp j)"
    "\<forall>k. k \<notin> leaf_name ` set idxs \<longrightarrow> rt_get rt' k = rt_get rt1 k" by blast
  have notin: "leaf_name i \<notin> leaf_name ` set idxs"
    using Cons.prems(2) leaf_name_inj by auto
  have r: "build_leaves net L H (i # idxs) rt = Inr rt'" using rt1(1) rt'(1) by simp
  have here: "rt_get rt' (leaf_name i) = rt_get rt (leaf_name i) @ leaf_rules i L H (lp i)"
    using rt'(3) notin rt1(2) by simp
  have others: "\<forall>j \<in> set idxs.
        rt_get rt' (leaf_name j) = rt_get rt (leaf_name j) @ leaf_rules j L H (lp j)"
  proof
    fix j assume j: "j \<in> set idxs"
    then have "j \<noteq> i" using Cons.prems(2) by auto
    then have "leaf_name j \<noteq> leaf_name i" using leaf_name_inj by blast
    then have same: "rt_get rt1 (leaf_name j) = rt_get rt (leaf_name j)" using rt1(3) by simp
    show "rt_get rt' (leaf_name j) = rt_get rt (leaf_name j) @ leaf_rules j L H (lp j)"
      using rt'(2) j same by simp
  qed
  have rest: "\<forall>k. k \<notin> leaf_name ` set (i # idxs) \<longrightarrow> rt_get rt' k = rt_get rt k"
    using rt'(3) rt1(3) by auto
  from r here others rest show ?case by auto
qed

subsection \<open>The spines\<close>

lemma spine_port_to_leaf_ok:
  "map (\<lambda>x. (intf_name x, peer_node x)) (leaf_facing intfs)
     = map (\<lambda>(p, k). (eth_name spine p, Some (''leaf'' @ str_nat k))) links
   \<Longrightarrow> \<exists>d'. spine_port_to_leaf spine d intfs = Inr d'"
proof (induction intfs arbitrary: d links)
  case Nil
  show ?case by simp
next
  case (Cons x intfs)
  let ?P = "\<lambda>x. case peer_node x of None \<Rightarrow> False | Some peer \<Rightarrow> py_in ''leaf'' peer"
  show ?case
  proof (cases "?P x")
    case False
    then have lf: "leaf_facing (x # intfs) = leaf_facing intfs"
      by (simp add: leaf_facing_def)
    have step: "spine_port_to_leaf spine d (x # intfs) = spine_port_to_leaf spine d intfs"
      using False by (cases "peer_node x") simp_all
    show ?thesis unfolding step using Cons.IH [of links d] Cons.prems unfolding lf by blast
  next
    case True
    then obtain peer where peer: "peer_node x = Some peer" "py_in ''leaf'' peer"
      by (cases "peer_node x") simp_all
    have lf: "leaf_facing (x # intfs) = x # leaf_facing intfs"
      using peer by (simp add: leaf_facing_def)
    obtain p k links' where links: "links = (p, k) # links'"
      using Cons.prems lf by (cases links) auto
    have nm: "intf_name x = eth_name spine p" and pk: "peer = ''leaf'' @ str_nat k"
      and rest: "map (\<lambda>x. (intf_name x, peer_node x)) (leaf_facing intfs)
                   = map (\<lambda>(p, k). (eth_name spine p, Some (''leaf'' @ str_nat k))) links'"
      using Cons.prems lf links peer(1) by simp_all
    have po: "port_of spine x = Inr p" using nm by (rule port_of_eth_name)
    have ln: "py_int (py_remove ''leaf'' peer) = Inr k" unfolding pk by (rule leaf_number)
    have step: "spine_port_to_leaf spine d (x # intfs)
                  = spine_port_to_leaf spine (dict_set d k p) intfs"
      using peer po ln by simp
    show ?thesis unfolding step by (rule Cons.IH [OF rest])
  qed
qed

lemma build_spine_ok:
  assumes "spine_ok net s links"
  shows "\<exists>rt'. build_spine net L H (spine_name s) rt = Inr rt'
           \<and> (\<forall>k. k \<noteq> spine_name s \<longrightarrow> rt_get rt' k = rt_get rt k)"
proof -
  from assms obtain intfs where n: "net (spine_name s) = Some intfs"
    and nm: "map (\<lambda>x. (intf_name x, peer_node x)) (leaf_facing intfs)
               = map (\<lambda>(p, k). (eth_name (spine_name s) p, Some (''leaf'' @ str_nat k))) links"
    by (auto simp: spine_ok_def split: option.splits)
  obtain d where d: "spine_port_to_leaf (spine_name s) [] intfs = Inr d"
    using spine_port_to_leaf_ok [OF nm] by blast
  have "build_spine net L H (spine_name s) rt = Inr (spine_rules (spine_name s) L H d rt)"
    by (simp add: build_spine_def n d)
  then show ?thesis by (simp add: rt_get_spine_rules)
qed

lemma build_spines_ok:
  assumes "\<forall>s \<in> set idxs. spine_ok net s (sl s)"
  shows "\<exists>rt'. build_spines net L H (map spine_name idxs) rt = Inr rt'
           \<and> (\<forall>k. k \<notin> spine_name ` set idxs \<longrightarrow> rt_get rt' k = rt_get rt k)"
  using assms
proof (induction idxs arbitrary: rt)
  case Nil
  show ?case by simp
next
  case (Cons s idxs)
  have ok: "spine_ok net s (sl s)" using Cons.prems by simp
  from build_spine_ok [OF ok, of L H rt] obtain rt1 where rt1:
    "build_spine net L H (spine_name s) rt = Inr rt1"
    "\<forall>k. k \<noteq> spine_name s \<longrightarrow> rt_get rt1 k = rt_get rt k" by blast
  have a: "\<forall>t \<in> set idxs. spine_ok net t (sl t)" using Cons.prems by simp
  from Cons.IH [OF a, of rt1] obtain rt' where rt':
    "build_spines net L H (map spine_name idxs) rt1 = Inr rt'"
    "\<forall>k. k \<notin> spine_name ` set idxs \<longrightarrow> rt_get rt' k = rt_get rt1 k" by blast
  have "build_spines net L H (map spine_name (s # idxs)) rt = Inr rt'"
    using rt1(1) rt'(1) by simp
  moreover have "\<forall>k. k \<notin> spine_name ` set (s # idxs) \<longrightarrow> rt_get rt' k = rt_get rt k"
    using rt1(2) rt'(2) by auto
  ultimately show ?case by blast
qed

text \<open>The table of a full-mesh network holds, for each leaf, exactly its rules.\<close>

lemma build_routing_table_leaf:
  assumes "full_mesh net S L lp sl" and "i < L"
  shows "\<exists>rt. build_routing_table net \<lparr>num_spines = S, num_leaves = L, hosts_per_leaf = H\<rparr>
                 = Inr rt
           \<and> rt_get rt (leaf_name i) = leaf_rules i L H (lp i)"
proof -
  have lo: "\<forall>j \<in> set [0..<L]. leaf_ok net S j (lp j)"
    and so: "\<forall>s \<in> set [0..<S]. spine_ok net s (sl s)"
    using assms(1) by (simp_all add: full_mesh_def)
  have dl: "distinct [0..<L]" by simp
  from build_leaves_ok [OF lo dl, of L H "[]"] obtain rt1 where rt1:
    "build_leaves net L H [0..<L] [] = Inr rt1"
    "\<forall>j \<in> set [0..<L].
        rt_get rt1 (leaf_name j) = rt_get [] (leaf_name j) @ leaf_rules j L H (lp j)"
    by blast
  from build_spines_ok [OF so, of L H rt1] obtain rt where rt:
    "build_spines net L H (map spine_name [0..<S]) rt1 = Inr rt"
    "\<forall>k. k \<notin> spine_name ` set [0..<S] \<longrightarrow> rt_get rt k = rt_get rt1 k" by blast
  have b: "build_routing_table net \<lparr>num_spines = S, num_leaves = L, hosts_per_leaf = H\<rparr> = Inr rt"
    by (simp add: build_routing_table_def rt1(1) rt(1))
  have "leaf_name i \<notin> spine_name ` set [0..<S]" using leaf_name_not_spine by auto
  then have same: "rt_get rt (leaf_name i) = rt_get rt1 (leaf_name i)" using rt(2) by simp
  have "i \<in> set [0..<L]" using assms(2) by simp
  then have "rt_get rt1 (leaf_name i) = rt_get [] (leaf_name i) @ leaf_rules i L H (lp i)"
    using rt1(2) by blast
  then have "rt_get rt (leaf_name i) = leaf_rules i L H (lp i)"
    using same by (simp add: rt_get_def)
  with b show ?thesis by blast
qed

lemma leaf_rules_mem:
  "r \<in> set (leaf_rules i L H sp) \<longleftrightarrow>
     (\<exists>h < H. r = \<lparr>dst_ip = host_ip (i + 1) (h + 1), out_ports = [h + 1]\<rparr>)
     \<or> (\<exists>j < L. j \<noteq> i \<and> (\<exists>h < H. r = \<lparr>dst_ip = host_ip (j + 1) (h + 1), out_ports = sp\<rparr>))"
proof -
  have l: "r \<in> set (map (\<lambda>h. \<lparr>dst_ip = host_ip (i + 1) (h + 1), out_ports = [h + 1]\<rparr>) [0..<H])
        \<longleftrightarrow> (\<exists>h < H. r = \<lparr>dst_ip = host_ip (i + 1) (h + 1), out_ports = [h + 1]\<rparr>)"
    by (simp add: image_iff Bex_def)
  have m: "r \<in> set (concat (map (\<lambda>j. if j = i then []
                         else map (\<lambda>h. \<lparr>dst_ip = host_ip (j + 1) (h + 1), out_ports = sp\<rparr>)
                                [0..<H]) [0..<L]))
        \<longleftrightarrow> (\<exists>j < L. j \<noteq> i
               \<and> (\<exists>h < H. r = \<lparr>dst_ip = host_ip (j + 1) (h + 1), out_ports = sp\<rparr>))"
    (is "?lhs \<longleftrightarrow> ?rhs")
  proof
    assume ?lhs
    then obtain j where j: "j < L"
      "r \<in> set (if j = i then []
                 else map (\<lambda>h. \<lparr>dst_ip = host_ip (j + 1) (h + 1), out_ports = sp\<rparr>) [0..<H])"
      by auto
    then have ji: "j \<noteq> i" by (cases "j = i") auto
    then obtain h where "h < H" "r = \<lparr>dst_ip = host_ip (j + 1) (h + 1), out_ports = sp\<rparr>"
      using j(2) by auto
    with j(1) ji show ?rhs by blast
  next
    assume ?rhs
    then obtain j h where jh: "j < L" "j \<noteq> i" "h < H"
      "r = \<lparr>dst_ip = host_ip (j + 1) (h + 1), out_ports = sp\<rparr>" by blast
    then have rin: "r \<in> set (if j = i then []
                 else map (\<lambda>h. \<lparr>dst_ip = host_ip (j + 1) (h + 1), out_ports = sp\<rparr>) [0..<H])"
      by simp
    have jin: "j \<in> set [0..<L]" using jh(1) by simp
    have "r \<in> (\<Union>j \<in> set [0..<L]. set (if j = i then []
                 else map (\<lambda>h. \<lparr>dst_ip = host_ip (j + 1) (h + 1), out_ports = sp\<rparr>) [0..<H]))"
      using jin rin by (rule UN_I)
    then show ?lhs by (simp only: set_concat set_map image_image)
  qed
  show ?thesis unfolding leaf_rules_def set_append Un_iff l m ..
qed

text \<open>
  Claim C9 (ECMP completeness). Take a full-mesh leaf-spine network with \<open>S\<close> spines, \<open>L\<close>
  leaves and \<open>H\<close> hosts per leaf, in which the spine-facing interfaces of leaf \<open>i\<close> have the
  port numbers \<open>leaf_ports i\<close>. Then \<open>build_routing_table\<close> returns a table, and in it leaf
  \<open>i\<close> has, for every host of another leaf, an entry with the egress ports \<open>leaf_ports i\<close>:
  these are \<open>S\<close> different ports and every spine is behind one of them. For every directly
  attached host the leaf has an entry with that host's single port. No entry of the leaf for
  such a destination has other ports.
\<close>

theorem ecmp_completeness:
  assumes "full_mesh net S L leaf_ports spine_links" and "i < L"
  shows "\<exists>rt. build_routing_table net \<lparr>num_spines = S, num_leaves = L, hosts_per_leaf = H\<rparr>
                 = Inr rt
     \<and> length (leaf_ports i) = S \<and> distinct (leaf_ports i)
     \<and> (\<forall>s < S. \<exists>p \<in> set (leaf_ports i). \<exists>intfs. net (leaf_name i) = Some intfs
           \<and> \<lparr>intf_name = eth_name (leaf_name i) p, peer_node = Some (spine_name s)\<rparr> \<in> set intfs)
     \<and> (\<forall>j h. j < L \<and> j \<noteq> i \<and> h < H \<longrightarrow>
           \<lparr>dst_ip = host_ip (j + 1) (h + 1), out_ports = leaf_ports i\<rparr>
             \<in> set (rt_get rt (leaf_name i)))
     \<and> (\<forall>h. h < H \<longrightarrow>
           \<lparr>dst_ip = host_ip (i + 1) (h + 1), out_ports = [h + 1]\<rparr>
             \<in> set (rt_get rt (leaf_name i)))
     \<and> (\<forall>r \<in> set (rt_get rt (leaf_name i)). \<forall>j h. dst_ip r = host_ip (j + 1) (h + 1) \<longrightarrow>
           out_ports r = (if j = i then [h + 1] else leaf_ports i))"
proof -
  let ?sp = "leaf_ports i"
  have lo: "leaf_ok net S i ?sp" using assms by (simp add: full_mesh_def)
  from build_routing_table_leaf [OF assms, of H] obtain rt where
    b: "build_routing_table net \<lparr>num_spines = S, num_leaves = L, hosts_per_leaf = H\<rparr> = Inr rt"
    and g: "rt_get rt (leaf_name i) = leaf_rules i L H ?sp" by blast
  have len: "length ?sp = S" using lo by (rule leaf_ports_length)
  have dis: "distinct ?sp" using lo by (rule leaf_ok_facing)
  have cover: "\<forall>s < S. \<exists>p \<in> set ?sp. \<exists>intfs. net (leaf_name i) = Some intfs
           \<and> \<lparr>intf_name = eth_name (leaf_name i) p, peer_node = Some (spine_name s)\<rparr> \<in> set intfs"
    using leaf_ports_cover [OF lo] by blast
  have remote: "\<forall>j h. j < L \<and> j \<noteq> i \<and> h < H \<longrightarrow>
           \<lparr>dst_ip = host_ip (j + 1) (h + 1), out_ports = ?sp\<rparr> \<in> set (rt_get rt (leaf_name i))"
    unfolding g leaf_rules_mem by blast
  have local: "\<forall>h. h < H \<longrightarrow>
           \<lparr>dst_ip = host_ip (i + 1) (h + 1), out_ports = [h + 1]\<rparr>
             \<in> set (rt_get rt (leaf_name i))"
    unfolding g leaf_rules_mem by blast
  have only: "\<forall>r \<in> set (rt_get rt (leaf_name i)). \<forall>j h. dst_ip r = host_ip (j + 1) (h + 1) \<longrightarrow>
           out_ports r = (if j = i then [h + 1] else ?sp)"
  proof (intro ballI allI impI)
    fix r j h
    assume r: "r \<in> set (rt_get rt (leaf_name i))" and ip: "dst_ip r = host_ip (j + 1) (h + 1)"
    from r consider h' where "h' < H" "r = \<lparr>dst_ip = host_ip (i + 1) (h' + 1), out_ports = [h' + 1]\<rparr>"
      | j' h' where "j' < L" "j' \<noteq> i" "h' < H"
          "r = \<lparr>dst_ip = host_ip (j' + 1) (h' + 1), out_ports = ?sp\<rparr>"
      unfolding g leaf_rules_mem by blast
    then show "out_ports r = (if j = i then [h + 1] else ?sp)"
    proof cases
      case 1
      then have "host_ip (i + 1) (h' + 1) = host_ip (j + 1) (h + 1)" using ip by simp
      then have "j = i \<and> h = h'" using host_ip_inj by fastforce
      then show ?thesis using 1 by simp
    next
      case 2
      then have "host_ip (j' + 1) (h' + 1) = host_ip (j + 1) (h + 1)" using ip by simp
      then have "j = j'" using host_ip_inj by fastforce
      then show ?thesis using 2 by simp
    qed
  qed
  from b len dis cover remote local only show ?thesis by blast
qed

text \<open>
  The network of 2 spines, 2 leaves and 1 host per leaf: ports 2 and 3 of each leaf face the
  spines, and the table is the one written out.
\<close>

theorem ecmp_completeness_witness:
  "full_mesh example_net 2 2 (\<lambda>i. [2, 3]) (\<lambda>s. [(1, 1), (2, 2)]) \<and> (0::nat) < 2
   \<and> build_routing_table example_net \<lparr>num_spines = 2, num_leaves = 2, hosts_per_leaf = 1\<rparr>
       = Inr [(''leaf1'', [\<lparr>dst_ip = ''10.0.1.1'', out_ports = [1]\<rparr>,
                            \<lparr>dst_ip = ''10.0.2.1'', out_ports = [2, 3]\<rparr>]),
              (''leaf2'', [\<lparr>dst_ip = ''10.0.2.1'', out_ports = [1]\<rparr>,
                            \<lparr>dst_ip = ''10.0.1.1'', out_ports = [2, 3]\<rparr>]),
              (''spine1'', [\<lparr>dst_ip = ''10.0.1.1'', out_ports = [1]\<rparr>,
                             \<lparr>dst_ip = ''10.0.2.1'', out_ports = [2]\<rparr>]),
              (''spine2'', [\<lparr>dst_ip = ''10.0.1.1'', out_ports = [1]\<rparr>,
                             \<lparr>dst_ip = ''10.0.2.1'', out_ports = [2]\<rparr>])]
   \<and> (\<exists>rt. build_routing_table example_net
                \<lparr>num_spines = 2, num_leaves = 2, hosts_per_leaf = 1\<rparr> = Inr rt
         \<and> \<lparr>dst_ip = ''10.0.2.1'', out_ports = [2, 3]\<rparr> \<in> set (rt_get rt ''leaf1'')
         \<and> \<lparr>dst_ip = ''10.0.1.1'', out_ports = [1]\<rparr> \<in> set (rt_get rt ''leaf1'')
         \<and> (\<forall>r \<in> set (rt_get rt ''leaf1'').
               (dst_ip r = ''10.0.2.1'' \<longrightarrow> out_ports r = [2, 3])
               \<and> (dst_ip r = ''10.0.1.1'' \<longrightarrow> out_ports r = [1])))"
proof -
  let ?info = "\<lparr>num_spines = 2, num_leaves = 2, hosts_per_leaf = 1\<rparr>"
  have h1: "full_mesh example_net 2 2 (\<lambda>i. [2, 3]) (\<lambda>s. [(1, 1), (2, 2)])" by code_simp
  have h2: "(0::nat) < 2" by simp
  have ev: "build_routing_table example_net ?info
       = Inr [(''leaf1'', [\<lparr>dst_ip = ''10.0.1.1'', out_ports = [1]\<rparr>,
                            \<lparr>dst_ip = ''10.0.2.1'', out_ports = [2, 3]\<rparr>]),
              (''leaf2'', [\<lparr>dst_ip = ''10.0.2.1'', out_ports = [1]\<rparr>,
                            \<lparr>dst_ip = ''10.0.1.1'', out_ports = [2, 3]\<rparr>]),
              (''spine1'', [\<lparr>dst_ip = ''10.0.1.1'', out_ports = [1]\<rparr>,
                             \<lparr>dst_ip = ''10.0.2.1'', out_ports = [2]\<rparr>]),
              (''spine2'', [\<lparr>dst_ip = ''10.0.1.1'', out_ports = [1]\<rparr>,
                             \<lparr>dst_ip = ''10.0.2.1'', out_ports = [2]\<rparr>])]"
    by code_simp
  have n0: "leaf_name 0 = ''leaf1''" by code_simp
  have ip1: "host_ip (0 + 1) (0 + 1) = ''10.0.1.1''" by code_simp
  have ip2: "host_ip (1 + 1) (0 + 1) = ''10.0.2.1''" by code_simp
  from ecmp_completeness [OF h1 h2, of 1] obtain rt where
    b: "build_routing_table example_net ?info = Inr rt"
    and remote: "\<forall>j h. j < 2 \<and> j \<noteq> 0 \<and> h < 1 \<longrightarrow>
           \<lparr>dst_ip = host_ip (j + 1) (h + 1), out_ports = [2, 3]\<rparr> \<in> set (rt_get rt (leaf_name 0))"
    and local: "\<forall>h. h < 1 \<longrightarrow>
           \<lparr>dst_ip = host_ip (0 + 1) (h + 1), out_ports = [h + 1]\<rparr>
             \<in> set (rt_get rt (leaf_name 0))"
    and only: "\<forall>r \<in> set (rt_get rt (leaf_name 0)). \<forall>j h. dst_ip r = host_ip (j + 1) (h + 1) \<longrightarrow>
           out_ports r = (if j = 0 then [h + 1] else [2, 3])"
    by (elim exE conjE) (rule that, assumption+)
  have r1: "\<lparr>dst_ip = ''10.0.2.1'', out_ports = [2, 3]\<rparr> \<in> set (rt_get rt ''leaf1'')"
    using remote [rule_format, of 1 0] by (simp only: n0 ip2) simp
  have r2: "\<lparr>dst_ip = ''10.0.1.1'', out_ports = [1]\<rparr> \<in> set (rt_get rt ''leaf1'')"
    using local [rule_format, of 0] by (simp only: n0 ip1) simp
  have r3: "\<forall>r \<in> set (rt_get rt ''leaf1'').
               (dst_ip r = ''10.0.2.1'' \<longrightarrow> out_ports r = [2, 3])
               \<and> (dst_ip r = ''10.0.1.1'' \<longrightarrow> out_ports r = [1])"
  proof (intro ballI conjI impI)
    fix r assume r: "r \<in> set (rt_get rt ''leaf1'')"
    { assume "dst_ip r = ''10.0.2.1''"
      then have "dst_ip r = host_ip (1 + 1) (0 + 1)" by (simp only: ip2)
      then show "out_ports r = [2, 3]" using only r unfolding n0 by fastforce }
    { assume "dst_ip r = ''10.0.1.1''"
      then have "dst_ip r = host_ip (0 + 1) (0 + 1)" by (simp only: ip1)
      then show "out_ports r = [1]" using only r unfolding n0 by fastforce }
  qed
  show ?thesis by (intro conjI h1 h2 ev exI [of _ rt] b r1 r2 r3)
qed

end
